theory Spec2Isabelle
  imports Main
begin

section \<open>Data model\<close>

text \<open>
  A basic block is named by its position in the function's block list (the
  \<^verbatim>\<open>BasicBlock *\<close> of the source); the entry block is the first one. A memory location is
  the pointer operand of a load or store (the \<^verbatim>\<open>Value *\<close> of the source), compared by
  identity only. A store also carries its value operand and its volatile flag; the pass
  reads neither. Every instruction that is neither a load nor a store is \<open>Other\<close>.
\<close>

type_synonym bid = nat
type_synonym loc = nat

datatype instr = Load loc | Store nat loc bool | Other

record block =
  instrs :: "instr list"
  succs :: "bid list"

type_synonym func = "block list"

text \<open>
  \<^verbatim>\<open>successors(BB)\<close> and the instruction list of a block. In the source a block pointer
  always names a block of the function; an index beyond the block list has no
  instructions and no successors here.
\<close>

definition successors :: "func \<Rightarrow> bid \<Rightarrow> bid list" where
  "successors F b = (if b < length F then succs (F ! b) else [])"

definition instructions :: "func \<Rightarrow> bid \<Rightarrow> instr list" where
  "instructions F b = (if b < length F then instrs (F ! b) else [])"

text \<open>The blocks named as a successor somewhere: the bound for the traversal below.\<close>

definition nodes_of :: "func \<Rightarrow> bid set" where
  "nodes_of F = (\<Union>b \<in> set F. set (succs b))"

lemma finite_nodes_of: "finite (nodes_of F)"
  by (simp add: nodes_of_def)

lemma successors_nodes_of: "set (successors F b) \<subseteq> nodes_of F"
  by (force simp: successors_def nodes_of_def)

section \<open>Graph orderer: \<^verbatim>\<open>dfsPostorder\<close>\<close>

text \<open>
  The recursive procedure of the source, with the two reference parameters
  \<^verbatim>\<open>visited\<close> and \<^verbatim>\<open>order\<close> passed in and returned. \<open>dfs_succs\<close> is the
  \<^verbatim>\<open>for (auto *succ : successors(node))\<close> loop.
\<close>

function dfsPostorder :: "func \<Rightarrow> bid \<Rightarrow> bid set \<times> bid list \<Rightarrow> bid set \<times> bid list"
  and dfs_succs :: "func \<Rightarrow> bid list \<Rightarrow> bid set \<times> bid list \<Rightarrow> bid set \<times> bid list"
where
  "dfsPostorder F node (visited, order) =
     (case dfs_succs F (successors F node) (insert node visited, order) of
        (visited', order') \<Rightarrow> (visited', order' @ [node]))"
| "dfs_succs F [] st = st"
| "dfs_succs F (succ # rest) (visited, order) =
     (if succ \<notin> visited
      then dfs_succs F rest (dfsPostorder F succ (visited, order))
      else dfs_succs F rest (visited, order))"
  by pat_completeness auto

lemma dfs_visited_mono:
  "dfsPostorder_dfs_succs_dom (Inl (F, node, st)) \<Longrightarrow> fst st \<subseteq> fst (dfsPostorder F node st)"
  "dfsPostorder_dfs_succs_dom (Inr (F, ss, st)) \<Longrightarrow> fst st \<subseteq> fst (dfs_succs F ss st)"
proof (induction F node st and F ss st rule: dfsPostorder_dfs_succs.pinduct)
  case (1 F node visited order)
  then show ?case
    by (auto simp: dfsPostorder.psimps split: prod.splits)
next
  case (2 F st)
  then show ?case by (simp add: dfs_succs.psimps)
next
  case (3 F succ rest visited order)
  then show ?case
    by (auto simp: dfs_succs.psimps split: if_splits)
qed

lemma lex_step:
  "finite B \<Longrightarrow> A \<subseteq> B \<Longrightarrow> (m::nat) < n \<Longrightarrow>
   ((A, k::nat, m), (B, k, n)) \<in> finite_psubset <*lex*> less_than <*lex*> less_than"
  by (cases "A = B") (auto simp: finite_psubset_def)

termination dfsPostorder
proof (relation "inv_image (finite_psubset <*lex*> less_than <*lex*> less_than)
      (\<lambda>x. case x of
          Inl (F, node, st) \<Rightarrow> (nodes_of F - insert node (fst st), 1::nat, 0::nat)
        | Inr (F, ss, st) \<Rightarrow> ((nodes_of F \<union> set ss) - fst st, 0, length ss))", goal_cases)
  case 1
  show ?case by auto
next
  case (2 F node visited order)
  have "nodes_of F \<union> set (successors F node) = nodes_of F"
    using successors_nodes_of[of F node] by auto
  then show ?case by simp
next
  case (3 F succ rest visited order)
  then have "nodes_of F - insert succ visited \<subset> (nodes_of F \<union> set (succ # rest)) - visited"
    by auto
  then show ?case by (simp add: finite_psubset_def finite_nodes_of)
next
  case (4 F succ rest visited order)
  from dfs_visited_mono(1)[OF 4(2)]
  have "(nodes_of F \<union> set rest) - fst (dfsPostorder F succ (visited, order))
          \<subseteq> (nodes_of F \<union> set (succ # rest)) - visited"
    by auto
  then show ?case
    using lex_step[of "(nodes_of F \<union> set (succ # rest)) - visited" _
                      "length rest" "length (succ # rest)" 0]
    by (simp add: finite_nodes_of)
next
  case (5 F succ rest visited order)
  have "(nodes_of F \<union> set rest) - visited \<subseteq> (nodes_of F \<union> set (succ # rest)) - visited"
    by auto
  then show ?case
    using lex_step[of "(nodes_of F \<union> set (succ # rest)) - visited" _
                      "length rest" "length (succ # rest)" 0]
    by (simp add: finite_nodes_of)
qed

text \<open>The block order of \<^verbatim>\<open>runOnFunction\<close>: the traversal from the entry block, block 0.\<close>

definition block_order :: "func \<Rightarrow> bid list" where
  "block_order F = snd (dfsPostorder F 0 ({}, []))"

section \<open>Liveness solver\<close>

type_synonym liveness = "bid \<Rightarrow> loc set"

text \<open>
  \<^verbatim>\<open>map<BasicBlock *, set<Value *>>\<close> read with \<^verbatim>\<open>operator[]\<close>: a missing key reads as
  the empty set, so the map is a total function.
\<close>

definition new_out_of :: "func \<Rightarrow> liveness \<Rightarrow> bid \<Rightarrow> loc set" where
  "new_out_of F loads_in BB =
     fold (\<lambda>succ new_out. new_out \<union> loads_in succ) (successors F BB) {}"

fun transfer :: "instr \<Rightarrow> loc set \<Rightarrow> loc set" where
  "transfer (Load ptr) new_in = insert ptr new_in"
| "transfer (Store v ptr vol) new_in = (if ptr \<in> new_in then new_in - {ptr} else new_in)"
| "transfer Other new_in = new_in"

text \<open>The scan of a block from its last instruction to its first.\<close>

definition new_in_of :: "func \<Rightarrow> bid \<Rightarrow> loc set \<Rightarrow> loc set" where
  "new_in_of F BB live_out = fold transfer (rev (instructions F BB)) live_out"

text \<open>The body of the \<^verbatim>\<open>for (BasicBlock *BB : order)\<close> loop of the solver.\<close>

fun visit_block :: "func \<Rightarrow> bid \<Rightarrow> liveness \<times> liveness \<times> bool \<Rightarrow> liveness \<times> liveness \<times> bool" where
  "visit_block F BB (loads_in, loads_out, changed) =
     (let new_out = new_out_of F loads_in BB;
          (changed, loads_out) =
             (if new_out \<noteq> loads_out BB then (True, loads_out(BB := new_out))
              else (changed, loads_out));
          new_in = new_in_of F BB (loads_out BB);
          (changed, loads_in) =
             (if new_in \<noteq> loads_in BB then (True, loads_in(BB := new_in))
              else (changed, loads_in))
      in (loads_in, loads_out, changed))"

text \<open>One full pass over the order, starting with \<^verbatim>\<open>changed = false\<close>.\<close>

definition solver_pass :: "func \<Rightarrow> bid list \<Rightarrow> liveness \<times> liveness \<Rightarrow> liveness \<times> liveness \<times> bool" where
  "solver_pass F order st = fold (visit_block F) order (fst st, snd st, False)"

text \<open>
  The \<^verbatim>\<open>while (changed)\<close> loop. \<^verbatim>\<open>changed\<close> starts true, so a first pass always runs.
  The loop has no bound in the source; \<open>None\<close> is the loop that never ends.
\<close>

partial_function (option) solver :: "func \<Rightarrow> bid list \<Rightarrow> liveness \<times> liveness \<Rightarrow> (liveness \<times> liveness) option" where
  "solver F order st =
     (case solver_pass F order st of
        (loads_in, loads_out, changed) \<Rightarrow>
          if changed then solver F order (loads_in, loads_out) else Some (loads_in, loads_out))"

declare solver.simps [code]

definition init_liveness :: "liveness \<times> liveness" where
  "init_liveness = (\<lambda>BB. {}, \<lambda>BB. {})"

section \<open>Dead store marker and eraser\<close>

text \<open>
  An instruction is identified by its block and its position in the block before any
  erasure (the \<^verbatim>\<open>Instruction *\<close> of the source). The marking scan updates
  \<^verbatim>\<open>loads_out[BB]\<close> in place.
\<close>

fun mark_instr :: "bid \<Rightarrow> nat \<times> instr \<Rightarrow> loc set \<times> (bid \<times> nat) list \<Rightarrow> loc set \<times> (bid \<times> nat) list" where
  "mark_instr BB (i, Load ptr) (live, toErase) = (insert ptr live, toErase)"
| "mark_instr BB (i, Store v ptr vol) (live, toErase) =
     (if ptr \<in> live then (live - {ptr}, toErase) else (live, toErase @ [(BB, i)]))"
| "mark_instr BB (i, Other) (live, toErase) = (live, toErase)"

fun mark_block :: "func \<Rightarrow> bid \<Rightarrow> liveness \<times> (bid \<times> nat) list \<Rightarrow> liveness \<times> (bid \<times> nat) list" where
  "mark_block F BB (loads_out, toErase) =
     (case fold (mark_instr BB) (rev (enumerate 0 (instructions F BB))) (loads_out BB, toErase) of
        (live, toErase') \<Rightarrow> (loads_out(BB := live), toErase'))"

definition mark_dead :: "func \<Rightarrow> bid list \<Rightarrow> liveness \<Rightarrow> (bid \<times> nat) list" where
  "mark_dead F order loads_out = snd (fold (mark_block F) order (loads_out, []))"

text \<open>\<^verbatim>\<open>eraseFromParent\<close> on every collected instruction.\<close>

definition erase_block :: "(bid \<times> nat) list \<Rightarrow> bid \<Rightarrow> block \<Rightarrow> block" where
  "erase_block toErase b B =
     B\<lparr>instrs := map snd (filter (\<lambda>(i, I). (b, i) \<notin> set toErase) (enumerate 0 (instrs B)))\<rparr>"

definition erase_all :: "func \<Rightarrow> (bid \<times> nat) list \<Rightarrow> func" where
  "erase_all F toErase = map (\<lambda>(b, B). erase_block toErase b B) (enumerate 0 F)"

section \<open>The pass\<close>

text \<open>The \<^verbatim>\<open>toErase\<close> vector of \<^verbatim>\<open>runOnFunction\<close> after the marking phase.\<close>

definition dead_stores :: "func \<Rightarrow> (bid \<times> nat) list option" where
  "dead_stores F =
     (case solver F (block_order F) init_liveness of
        None \<Rightarrow> None
      | Some (loads_in, loads_out) \<Rightarrow> Some (mark_dead F (block_order F) loads_out))"

text \<open>The result is the \<^verbatim>\<open>bool\<close> returned and the function as the pass leaves it.\<close>

definition runOnFunction :: "func \<Rightarrow> (bool \<times> func) option" where
  "runOnFunction F =
     (case dead_stores F of
        None \<Rightarrow> None
      | Some toErase \<Rightarrow> Some (toErase \<noteq> [], erase_all F toErase))"

section \<open>Notions of the specification and of the proofs\<close>

text \<open>
  The block-local backward transfer in the words of the specification: going from the last
  instruction to the first, a load of \<open>L\<close> inserts \<open>L\<close>, a store to \<open>L\<close> removes \<open>L\<close>,
  any other instruction leaves the set unchanged.
\<close>

primrec backward_transfer :: "instr list \<Rightarrow> loc set \<Rightarrow> loc set" where
  "backward_transfer [] X = X"
| "backward_transfer (I # Is) X =
     (case I of
        Load L \<Rightarrow> insert L (backward_transfer Is X)
      | Store v L vol \<Rightarrow> backward_transfer Is X - {L}
      | Other \<Rightarrow> backward_transfer Is X)"

text \<open>
  The control-flow graph and the blocks reachable from the entry block by successor edges.
\<close>

definition edges :: "func \<Rightarrow> (bid \<times> bid) set" where
  "edges F = {(a, b). b \<in> set (successors F a)}"

definition reachable :: "func \<Rightarrow> bid set" where
  "reachable F = (edges F)\<^sup>* `` {0}"

text \<open>
  The blocks a block \<open>s\<close> can reach through blocks that are not in \<open>V\<close> (not yet visited).
\<close>

definition unvisited_edges :: "func \<Rightarrow> bid set \<Rightarrow> (bid \<times> bid) set" where
  "unvisited_edges F V = {(a, b). b \<in> set (successors F a) \<and> a \<notin> V \<and> b \<notin> V}"

definition reach_unvisited :: "func \<Rightarrow> bid set \<Rightarrow> bid \<Rightarrow> bid set" where
  "reach_unvisited F V s = (if s \<in> V then {} else (unvisited_edges F V)\<^sup>* `` {s})"

text \<open>
  Postorder, read off the sequence: each successor of a block \<open>b\<close> was visited before the
  traversal started (\<open>V\<close>), or stands before \<open>b\<close>, or is \<open>b\<close>, or stands after \<open>b\<close> and
  reaches \<open>b\<close> (it was still being traversed when \<open>b\<close> was appended).
\<close>

definition postorder_edges :: "func \<Rightarrow> bid set \<Rightarrow> bid list \<Rightarrow> bool" where
  "postorder_edges F V L =
     (\<forall>pre b post. L = pre @ b # post \<longrightarrow>
        (\<forall>s \<in> set (successors F b).
           s \<in> V \<or> s \<in> set pre \<or> s = b \<or> (s \<in> set post \<and> (s, b) \<in> (edges F)\<^sup>*)))"

text \<open>The pointer operands of the load instructions of a set of blocks.\<close>

definition loaded_in :: "func \<Rightarrow> bid set \<Rightarrow> loc set" where
  "loaded_in F Bs = {L. \<exists>b \<in> Bs. Load L \<in> set (instructions F b)}"

text \<open>
  The run of the solver, step by step: the sets after \<open>n\<close> full passes, and the state after
  the first \<open>k\<close> block visits of the pass that follows them.
\<close>

primrec solver_passes :: "func \<Rightarrow> bid list \<Rightarrow> nat \<Rightarrow> liveness \<times> liveness" where
  "solver_passes F order 0 = init_liveness"
| "solver_passes F order (Suc n) =
     (case solver_pass F order (solver_passes F order n) of
        (loads_in, loads_out, changed) \<Rightarrow> (loads_in, loads_out))"

definition solver_state_at :: "func \<Rightarrow> bid list \<Rightarrow> nat \<Rightarrow> nat \<Rightarrow> liveness \<times> liveness \<times> bool" where
  "solver_state_at F order n k =
     fold (visit_block F) (take k order)
       (fst (solver_passes F order n), snd (solver_passes F order n), False)"

text \<open>
  Invariants of the iteration: every set lies in \<open>U\<close>; every set of the order lies below
  what the dataflow equations give for it; and the content of the sets of the order, for
  counting.
\<close>

definition bounded_by :: "loc set \<Rightarrow> liveness \<times> liveness \<Rightarrow> bool" where
  "bounded_by U st = (\<forall>b. fst st b \<subseteq> U \<and> snd st b \<subseteq> U)"

definition ascending :: "func \<Rightarrow> bid list \<Rightarrow> liveness \<times> liveness \<Rightarrow> bool" where
  "ascending F order st =
     (\<forall>b \<in> set order. snd st b \<subseteq> new_out_of F (fst st) b \<and> fst st b \<subseteq> new_in_of F b (snd st b))"

definition content :: "bid list \<Rightarrow> liveness \<times> liveness \<Rightarrow> (bid \<times> bool \<times> loc) set" where
  "content order st =
     {(b, out, L). b \<in> set order \<and> (if out then L \<in> snd st b else L \<in> fst st b)}"

text \<open>
  Path semantics of liveness. Point \<open>i\<close> of block \<open>b\<close> is the program point before its
  \<open>i\<close>-th instruction; the point after the last instruction is the exit of the block.
  \<open>may_read F b i L\<close>: some path of the control-flow graph from that point reaches a load
  of \<open>L\<close> with no store to \<open>L\<close> before it.
\<close>

inductive may_read :: "func \<Rightarrow> bid \<Rightarrow> nat \<Rightarrow> loc \<Rightarrow> bool" for F :: func where
  load: "i < length (instructions F b) \<Longrightarrow> instructions F b ! i = Load L \<Longrightarrow> may_read F b i L"
| pass: "i < length (instructions F b) \<Longrightarrow> \<forall>v vol. instructions F b ! i \<noteq> Store v L vol \<Longrightarrow>
         may_read F b (Suc i) L \<Longrightarrow> may_read F b i L"
| edge: "i = length (instructions F b) \<Longrightarrow> s \<in> set (successors F b) \<Longrightarrow>
         may_read F s 0 L \<Longrightarrow> may_read F b i L"

text \<open>
  What the marking scan of a block collects, started with the set \<open>X\<close> at the block's exit:
  the stores whose location is not in the set computed for the point after them.
\<close>

definition dead_at :: "instr list \<Rightarrow> loc set \<Rightarrow> nat \<Rightarrow> bool" where
  "dead_at Is X i =
     (i < length Is \<and>
      (\<exists>v ptr vol. Is ! i = Store v ptr vol \<and> ptr \<notin> backward_transfer (drop (Suc i) Is) X))"

fun block_marks :: "bid \<Rightarrow> nat \<Rightarrow> instr list \<Rightarrow> loc set \<Rightarrow> (bid \<times> nat) list" where
  "block_marks BB n [] X = []"
| "block_marks BB n (I # Is) X =
     block_marks BB (Suc n) Is X @
     (case I of
        Store v ptr vol \<Rightarrow> if ptr \<in> backward_transfer Is X then [] else [(BB, n)]
      | _ \<Rightarrow> [])"

text \<open>
  Two instructions of the same kind with the same pointer operand; two procedures that
  are identical except in the value operands and volatile flags of their stores; and two
  procedures that look alike, in this sense, on a set of blocks.
\<close>

fun same_pointer :: "instr \<Rightarrow> instr \<Rightarrow> bool" where
  "same_pointer (Load p) (Load q) = (p = q)"
| "same_pointer (Store v p vol) (Store w q vol') = (p = q)"
| "same_pointer Other Other = True"
| "same_pointer _ _ = False"

definition same_shape :: "func \<Rightarrow> func \<Rightarrow> bool" where
  "same_shape F G =
     (length F = length G \<and>
      (\<forall>b < length F. succs (F ! b) = succs (G ! b) \<and>
                       list_all2 same_pointer (instrs (F ! b)) (instrs (G ! b))))"

definition agree_on :: "bid set \<Rightarrow> func \<Rightarrow> func \<Rightarrow> bool" where
  "agree_on R F G =
     (\<forall>b \<in> R. successors F b = successors G b \<and>
               list_all2 same_pointer (instructions F b) (instructions G b))"

text \<open>
  A block after the eraser: the stores that the marking scan, started with \<open>X\<close> at the
  exit of the block, finds dead are gone.
\<close>

fun prune :: "instr list \<Rightarrow> loc set \<Rightarrow> instr list" where
  "prune [] X = []"
| "prune (I # Is) X =
     (case I of
        Store v ptr vol \<Rightarrow> if ptr \<in> backward_transfer Is X then I # prune Is X else prune Is X
      | _ \<Rightarrow> I # prune Is X)"

section \<open>Example procedures\<close>

text \<open>An entry block that stores to location 1 and branches to a block that loads it.\<close>

definition store_then_branch :: func where
  "store_then_branch =
     [\<lparr>instrs = [Store 0 1 False], succs = [1]\<rparr>, \<lparr>instrs = [Load 1], succs = []\<rparr>]"

definition branch_in :: liveness where
  "branch_in = (\<lambda>BB. {})(1 := {1})"

definition branch_out :: liveness where
  "branch_out = (\<lambda>BB. {})(0 := {1})"

text \<open>A graph with a cycle, a self-loop and a block (3) that no path from the entry reaches.\<close>

definition cyclic_cfg :: func where
  "cyclic_cfg =
     [\<lparr>instrs = [], succs = [1, 2]\<rparr>, \<lparr>instrs = [], succs = [2, 0]\<rparr>,
      \<lparr>instrs = [], succs = [2]\<rparr>, \<lparr>instrs = [], succs = [1]\<rparr>]"

text \<open>
  An entry block with two stores to location 1 that branches to a block loading it: the
  first store is overwritten, the second is read.
\<close>

definition overwritten_store :: func where
  "overwritten_store =
     [\<lparr>instrs = [Store 5 1 False, Store 6 1 False], succs = [1]\<rparr>,
      \<lparr>instrs = [Load 1], succs = []\<rparr>]"

text \<open>The overwritten-store procedure with a volatile first store.\<close>

definition volatile_store :: func where
  "volatile_store =
     [\<lparr>instrs = [Store 7 1 True, Store 8 1 False], succs = [1]\<rparr>,
      \<lparr>instrs = [Load 1], succs = []\<rparr>]"

text \<open>
  The overwritten-store procedure with a third block that no path from the entry reaches
  and that holds a store nothing reads.
\<close>

definition unreachable_store :: func where
  "unreachable_store =
     [\<lparr>instrs = [Store 5 1 False, Store 6 1 False], succs = [1]\<rparr>,
      \<lparr>instrs = [Load 1], succs = []\<rparr>,
      \<lparr>instrs = [Store 0 2 False], succs = [0]\<rparr>]"

section \<open>Fixtures of the specification\<close>

lemmas pass_defs = runOnFunction_def dead_stores_def block_order_def successors_def
  instructions_def init_liveness_def solver_pass_def new_out_of_def new_in_of_def
  mark_dead_def erase_all_def erase_block_def

text \<open>
  C3 (amended). A single block \<open>store L, store L\<close> without successors: nothing is live
  at the exit of a block without successors, so the scan from the bottom marks the second
  store as well as the first. The pass deletes both stores, returns true and leaves the
  block empty.
\<close>

theorem linear_chain_deletes_both_stores:
  "dead_stores [\<lparr>instrs = [Store v L vol, Store v' L vol'], succs = []\<rparr>] = Some [(0, 1), (0, 0)]
   \<and> runOnFunction [\<lparr>instrs = [Store v L vol, Store v' L vol'], succs = []\<rparr>]
       = Some (True, [\<lparr>instrs = [], succs = []\<rparr>])"
proof -
  define F where "F = [\<lparr>instrs = [Store v L vol, Store v' L vol'], succs = []\<rparr>]"
  have ord: "block_order F = [0]"
    by (simp add: F_def block_order_def successors_def)
  have sol: "solver F [0] init_liveness = Some init_liveness"
    by (subst solver.simps) (simp add: F_def pass_defs)
  have dead: "dead_stores F = Some [(0, 1), (0, 0)]"
    by (simp add: dead_stores_def ord sol)
       (simp add: F_def init_liveness_def mark_dead_def instructions_def)
  have "runOnFunction F = Some (True, [\<lparr>instrs = [], succs = []\<rparr>])"
    by (simp add: runOnFunction_def dead) (simp add: F_def erase_all_def erase_block_def)
  with dead show ?thesis by (simp add: F_def)
qed

text \<open>
  C3 as stated fails: on \<open>store 1, store 1\<close> the pass does not return the one-store
  block; it collects the second store and then the first.
\<close>

theorem linear_chain_counterexample:
  "runOnFunction [\<lparr>instrs = [Store 0 1 False, Store 0 1 False], succs = []\<rparr>]
     \<noteq> Some (True, [\<lparr>instrs = [Store 0 1 False], succs = []\<rparr>]) \<and>
   dead_stores [\<lparr>instrs = [Store 0 1 False, Store 0 1 False], succs = []\<rparr>]
     = Some [(0, 1), (0, 0)]"
  by code_simp

text \<open>
  C4 (amended). A single block \<open>store L, load L\<close>: the scan from the bottom meets the
  load first, so the location is live at the store. The store is kept and the pass returns
  false, with the self-loop edge and without it.
\<close>

theorem store_then_load_kept:
  "runOnFunction [\<lparr>instrs = [Store v L vol, Load L], succs = [0]\<rparr>]
     = Some (False, [\<lparr>instrs = [Store v L vol, Load L], succs = [0]\<rparr>])
   \<and> runOnFunction [\<lparr>instrs = [Store v L vol, Load L], succs = []\<rparr>]
     = Some (False, [\<lparr>instrs = [Store v L vol, Load L], succs = []\<rparr>])"
proof -
  have run: "runOnFunction F = Some (False, F)"
    if F: "F = [\<lparr>instrs = [Store v L vol, Load L], succs = ss\<rparr>]" and ss: "ss = [] \<or> ss = [0]"
    for F ss
  proof -
    have ord: "block_order F = [0]"
      using ss by (auto simp: F block_order_def successors_def)
    have sol: "solver F [0] init_liveness = Some init_liveness"
      using ss by (subst solver.simps) (auto simp: F pass_defs)
    have dead: "dead_stores F = Some []"
      by (simp add: dead_stores_def ord sol)
         (simp add: F init_liveness_def mark_dead_def instructions_def)
    show ?thesis
      by (simp add: runOnFunction_def dead) (simp add: F erase_all_def erase_block_def)
  qed
  show ?thesis using run[of _ "[0]"] run[of _ "[]"] by simp
qed

text \<open>
  C4 as stated fails in its second half: without the self-loop edge nothing is marked and
  the block comes back unchanged.
\<close>

theorem store_then_load_counterexample:
  "dead_stores [\<lparr>instrs = [Store 0 1 False, Load 1], succs = []\<rparr>] = Some []
   \<and> runOnFunction [\<lparr>instrs = [Store 0 1 False, Load 1], succs = []\<rparr>]
       = Some (False, [\<lparr>instrs = [Store 0 1 False, Load 1], succs = []\<rparr>])"
  by code_simp

section \<open>The solver: fixed point\<close>

lemma new_out_of_Union: "new_out_of F loads_in BB = (\<Union>S \<in> set (successors F BB). loads_in S)"
proof -
  have "fold (\<lambda>succ new_out. new_out \<union> loads_in succ) ss A = A \<union> (\<Union>S \<in> set ss. loads_in S)"
    for ss A
    by (induction ss arbitrary: A) auto
  then show ?thesis by (simp add: new_out_of_def)
qed

lemma transfer_Store: "transfer (Store v L vol) X = X - {L}"
  by auto

lemma new_in_of_backward: "new_in_of F BB X = backward_transfer (instructions F BB) X"
proof -
  have "fold transfer (rev Is) X = backward_transfer Is X" for Is
    by (induction Is) (auto split: instr.splits)
  then show ?thesis by (simp add: new_in_of_def)
qed

lemma visit_block_eq:
  "visit_block F BB (li, lo, ch) =
     (li(BB := new_in_of F BB (new_out_of F li BB)),
      lo(BB := new_out_of F li BB),
      ch \<or> new_out_of F li BB \<noteq> lo BB \<or> new_in_of F BB (new_out_of F li BB) \<noteq> li BB)"
  by (auto simp: Let_def fun_upd_idem_iff)

declare visit_block.simps [simp del]

lemma pass_unchanged:
  "fold (visit_block F) bs (li, lo, ch) = (li', lo', False) \<Longrightarrow>
     li' = li \<and> lo' = lo \<and> \<not> ch \<and>
     (\<forall>B \<in> set bs. new_out_of F li B = lo B \<and> new_in_of F B (lo B) = li B)"
proof (induction bs arbitrary: li lo ch)
  case Nil
  then show ?case by simp
next
  case (Cons b bs)
  let ?no = "new_out_of F li b"
  let ?ni = "new_in_of F b ?no"
  let ?ch = "ch \<or> ?no \<noteq> lo b \<or> ?ni \<noteq> li b"
  from Cons.prems have "fold (visit_block F) bs (li(b := ?ni), lo(b := ?no), ?ch) = (li', lo', False)"
    by (simp add: visit_block_eq)
  from Cons.IH[OF this]
  have 1: "li' = li(b := ?ni)" "lo' = lo(b := ?no)" "\<not> ?ch"
    and 2: "\<forall>B \<in> set bs. new_out_of F (li(b := ?ni)) B = (lo(b := ?no)) B
              \<and> new_in_of F B ((lo(b := ?no)) B) = (li(b := ?ni)) B"
    by blast+
  from 1(3) have eqs: "?no = lo b" "?ni = li b" "\<not> ch" by auto
  then have idem: "li(b := ?ni) = li" "lo(b := ?no) = lo" by auto
  from 2 have 3: "\<forall>B \<in> set bs. new_out_of F li B = lo B \<and> new_in_of F B (lo B) = li B"
    unfolding idem .
  from 1(1,2) have "li' = li" "lo' = lo" unfolding idem .
  moreover from eqs have "new_out_of F li b = lo b \<and> new_in_of F b (lo b) = li b" by simp
  ultimately show ?case using 3 eqs(3) by simp
qed

lemma solver_pass_fixpoint:
  "solver_pass F order st = (li, lo, False) \<Longrightarrow>
     st = (li, lo) \<and> (\<forall>B \<in> set order. new_out_of F li B = lo B \<and> new_in_of F B (lo B) = li B)"
  using pass_unchanged[of F order "fst st" "snd st" False li lo]
  by (auto simp: solver_pass_def)


lemma solver_invariant_rule:
  assumes run: "solver F order st = Some r"
    and init: "I st"
    and step: "\<And>st li lo. I st \<Longrightarrow> solver_pass F order st = (li, lo, True) \<Longrightarrow> I (li, lo)"
  shows "I r \<and> solver_pass F order r = (fst r, snd r, False)"
proof -
  define P where "P = (\<lambda>F' order' st' r'. F' = F \<and> order' = order \<and> I st' \<longrightarrow>
                          I r' \<and> solver_pass F order r' = (fst r', snd r', False))"
  have "P F order st r"
  proof (rule solver.raw_induct[where P = P, OF _ run])
    fix slv F' order' st' r'
    assume IH: "\<And>F order st y. slv F order st = Some y \<Longrightarrow> P F order st y"
      and res: "(case solver_pass F' order' st' of
                   (loads_in, loads_out, changed) \<Rightarrow>
                     if changed then slv F' order' (loads_in, loads_out)
                     else Some (loads_in, loads_out)) = Some r'"
    show "P F' order' st' r'"
      unfolding P_def
    proof (intro impI, elim conjE)
      assume eq: "F' = F" "order' = order" and I: "I st'"
      obtain li lo ch where p: "solver_pass F order st' = (li, lo, ch)"
        by (cases "solver_pass F order st'") auto
      show "I r' \<and> solver_pass F order r' = (fst r', snd r', False)"
      proof (cases ch)
        case True
        with res p eq have "slv F order (li, lo) = Some r'" by simp
        from IH[OF this] have "P F order (li, lo) r'" .
        moreover have "I (li, lo)" using step[OF I] p True by simp
        ultimately show ?thesis unfolding P_def by blast
      next
        case False
        with res p eq have r': "r' = (li, lo)" by simp
        from solver_pass_fixpoint[of F order st' li lo] p False
        have "st' = (li, lo)" by simp
        with r' p False I show ?thesis by simp
      qed
    qed
  qed
  with init show ?thesis unfolding P_def by simp
qed


text \<open>
  C2. When the \<^verbatim>\<open>while\<close> loop of the solver ends, every block \<open>B\<close> of the order has
  \<open>loads_out[B]\<close> equal to the union of \<open>loads_in[S]\<close> over its successors \<open>S\<close> and
  \<open>loads_in[B]\<close> equal to the backward transfer of \<open>loads_out[B]\<close> through its instructions,
  and one more pass over the order changes no set.
\<close>

theorem solver_fixed_point:
  "solver F order st = Some (li, lo) \<Longrightarrow>
     (\<forall>B \<in> set order.
        lo B = (\<Union>S \<in> set (successors F B). li S) \<and>
        li B = backward_transfer (instructions F B) (lo B)) \<and>
     solver_pass F order (li, lo) = (li, lo, False)"
proof -
  assume run: "solver F order st = Some (li, lo)"
  from solver_invariant_rule[OF run, of "\<lambda>st. True"]
  have stable: "solver_pass F order (li, lo) = (li, lo, False)" by simp
  from solver_pass_fixpoint[OF stable]
  have "\<forall>B \<in> set order. new_out_of F li B = lo B \<and> new_in_of F B (lo B) = li B" by simp
  then have "\<forall>B \<in> set order.
        lo B = (\<Union>S \<in> set (successors F B). li S) \<and>
        li B = backward_transfer (instructions F B) (lo B)"
    by (simp add: new_out_of_Union new_in_of_backward)
  with stable show ?thesis by simp
qed

lemma store_then_branch_order: "block_order store_then_branch = [1, 0]"
  by (simp add: store_then_branch_def block_order_def successors_def)

lemma store_then_branch_solver:
  "solver store_then_branch [1, 0] init_liveness = Some (branch_in, branch_out)"
proof -
  have p1: "solver_pass store_then_branch [1, 0] init_liveness = (branch_in, branch_out, True)"
    by (auto simp: solver_pass_def init_liveness_def visit_block_eq new_out_of_Union
        new_in_of_backward successors_def instructions_def store_then_branch_def
        branch_in_def branch_out_def fun_eq_iff)
  have p2: "solver_pass store_then_branch [1, 0] (branch_in, branch_out) = (branch_in, branch_out, False)"
    by (auto simp: solver_pass_def visit_block_eq new_out_of_Union
        new_in_of_backward successors_def instructions_def store_then_branch_def
        branch_in_def branch_out_def fun_eq_iff)
  have "solver store_then_branch [1, 0] (branch_in, branch_out) = Some (branch_in, branch_out)"
    by (subst solver.simps) (simp only: p2 prod.case if_False)
  then show ?thesis
    by (subst solver.simps) (simp only: p1 prod.case if_True)
qed

text \<open>The fixed point on the store-then-branch procedure.\<close>

theorem solver_fixed_point_witness:
  "solver store_then_branch [1, 0] init_liveness = Some (branch_in, branch_out) \<and>
   branch_out 1 = (\<Union>S \<in> set (successors store_then_branch 1). branch_in S) \<and>
   branch_in 1 = backward_transfer (instructions store_then_branch 1) (branch_out 1) \<and>
   branch_out 0 = (\<Union>S \<in> set (successors store_then_branch 0). branch_in S) \<and>
   branch_in 0 = backward_transfer (instructions store_then_branch 0) (branch_out 0) \<and>
   solver_pass store_then_branch [1, 0] (branch_in, branch_out) = (branch_in, branch_out, False)"
  using solver_fixed_point[OF store_then_branch_solver] store_then_branch_solver by simp

section \<open>The graph orderer\<close>

lemma reach_unvisited_disjoint: "reach_unvisited F V s \<inter> V = {}"
proof -
  have "x \<notin> V" if "(s, x) \<in> (unvisited_edges F V)\<^sup>*" "s \<notin> V" for x
    using that by (induction rule: rtrancl_induct) (auto simp: unvisited_edges_def)
  then show ?thesis by (auto simp: reach_unvisited_def)
qed

lemma reach_unvisited_self: "s \<notin> V \<Longrightarrow> s \<in> reach_unvisited F V s"
  by (simp add: reach_unvisited_def)

lemma reach_unvisited_step:
  "x \<in> reach_unvisited F V s \<Longrightarrow> y \<in> set (successors F x) \<Longrightarrow> y \<notin> V \<Longrightarrow>
     y \<in> reach_unvisited F V s"
proof -
  assume x: "x \<in> reach_unvisited F V s" and y: "y \<in> set (successors F x)" "y \<notin> V"
  from x have s: "s \<notin> V" and p: "(s, x) \<in> (unvisited_edges F V)\<^sup>*"
    by (auto simp: reach_unvisited_def split: if_splits)
  from x reach_unvisited_disjoint[of F V s] have "x \<notin> V" by auto
  with y have "(x, y) \<in> unvisited_edges F V" by (simp add: unvisited_edges_def)
  with p have "(s, y) \<in> (unvisited_edges F V)\<^sup>*" by (rule rtrancl_into_rtrancl)
  with s show ?thesis by (simp add: reach_unvisited_def)
qed

lemma reach_unvisited_induct [consumes 1, case_names start step]:
  assumes "x \<in> reach_unvisited F V s"
    and "s \<notin> V \<Longrightarrow> P s"
    and "\<And>a b. a \<in> reach_unvisited F V s \<Longrightarrow> P a \<Longrightarrow> b \<in> set (successors F a) \<Longrightarrow>
            a \<notin> V \<Longrightarrow> b \<notin> V \<Longrightarrow> P b"
  shows "P x"
proof -
  from assms(1) have s: "s \<notin> V" and p: "(s, x) \<in> (unvisited_edges F V)\<^sup>*"
    by (auto simp: reach_unvisited_def split: if_splits)
  from p show ?thesis
  proof (induction rule: rtrancl_induct)
    case base
    show ?case using assms(2) s by simp
  next
    case (step a b)
    from step(1) s have "a \<in> reach_unvisited F V s" by (simp add: reach_unvisited_def)
    with step show ?case using assms(3)[of a b] by (auto simp: unvisited_edges_def)
  qed
qed

lemma reach_unvisited_node:
  assumes "node \<notin> V"
  shows "reach_unvisited F V node =
           insert node (\<Union>s \<in> set (successors F node). reach_unvisited F (insert node V) s)"
    (is "?L = ?R")
proof
  show "?L \<subseteq> ?R"
  proof
    fix x assume "x \<in> ?L"
    then show "x \<in> ?R"
    proof (induction rule: reach_unvisited_induct)
      case start
      show ?case by simp
    next
      case (step a b)
      show ?case
      proof (cases "b = node")
        case True
        then show ?thesis by simp
      next
        case False
        with step.hyps(4) have bV: "b \<notin> insert node V" by simp
        from step.IH show ?thesis
        proof
          assume "a = node"
          with step.hyps(2) bV have "b \<in> reach_unvisited F (insert node V) b" "b \<in> set (successors F node)"
            by (auto intro: reach_unvisited_self)
          then show ?thesis by blast
        next
          assume "a \<in> (\<Union>s \<in> set (successors F node). reach_unvisited F (insert node V) s)"
          then obtain s where s: "s \<in> set (successors F node)" "a \<in> reach_unvisited F (insert node V) s"
            by blast
          from reach_unvisited_step[OF s(2) step.hyps(2) bV] s(1) show ?thesis by blast
        qed
      qed
    qed
  qed
next
  show "?R \<subseteq> ?L"
  proof
    fix x assume "x \<in> ?R"
    then show "x \<in> ?L"
    proof
      assume "x = node"
      with assms show ?thesis by (simp add: reach_unvisited_self)
    next
      assume "x \<in> (\<Union>s \<in> set (successors F node). reach_unvisited F (insert node V) s)"
      then obtain s where s: "s \<in> set (successors F node)" "x \<in> reach_unvisited F (insert node V) s"
        by blast
      from s(2) show ?thesis
      proof (induction rule: reach_unvisited_induct)
        case start
        then show ?case
          using reach_unvisited_step[OF reach_unvisited_self[OF assms] s(1)] by simp
      next
        case (step a b)
        then show ?case using reach_unvisited_step[of a F V node b] by simp
      qed
    qed
  qed
qed

lemma reach_unvisited_antimono:
  "V \<subseteq> V' \<Longrightarrow> reach_unvisited F V' t \<subseteq> reach_unvisited F V t"
proof
  fix x assume sub: "V \<subseteq> V'" and "x \<in> reach_unvisited F V' t"
  from this(2) show "x \<in> reach_unvisited F V t"
  proof (induction rule: reach_unvisited_induct)
    case start
    then show ?case using sub by (auto intro: reach_unvisited_self)
  next
    case (step a b)
    from step.hyps(4) sub have "b \<notin> V" by auto
    from reach_unvisited_step[OF step.IH step.hyps(2) this] show ?case .
  qed
qed

lemma reach_unvisited_after:
  "reach_unvisited F V t \<subseteq> reach_unvisited F V s \<union> reach_unvisited F (V \<union> reach_unvisited F V s) t"
proof
  let ?V1 = "V \<union> reach_unvisited F V s"
  fix x assume "x \<in> reach_unvisited F V t"
  then show "x \<in> reach_unvisited F V s \<union> reach_unvisited F ?V1 t"
  proof (induction rule: reach_unvisited_induct)
    case start
    then show ?case by (auto intro: reach_unvisited_self)
  next
    case (step a b)
    from step.IH show ?case
    proof
      assume "a \<in> reach_unvisited F V s"
      from reach_unvisited_step[OF this step.hyps(2) step.hyps(4)] show ?thesis by simp
    next
      assume a: "a \<in> reach_unvisited F ?V1 t"
      show ?thesis
      proof (cases "b \<in> reach_unvisited F V s")
        case True
        then show ?thesis by simp
      next
        case False
        with step.hyps(4) have "b \<notin> ?V1" by simp
        from reach_unvisited_step[OF a step.hyps(2) this] show ?thesis by simp
      qed
    qed
  qed
qed

lemma reach_unvisited_edges: "x \<in> reach_unvisited F V s \<Longrightarrow> (s, x) \<in> (edges F)\<^sup>*"
proof (induction rule: reach_unvisited_induct)
  case start
  show ?case by simp
next
  case (step a b)
  from step.hyps(2) have "(a, b) \<in> edges F" by (simp add: edges_def)
  with step.IH show ?case by (rule rtrancl_into_rtrancl)
qed

lemma reach_unvisited_empty: "reach_unvisited F {} s = (edges F)\<^sup>* `` {s}"
proof -
  have "unvisited_edges F {} = edges F" by (simp add: unvisited_edges_def edges_def)
  then show ?thesis by (simp add: reach_unvisited_def)
qed

lemma append_split_cases:
  "L1 @ L2 = pre @ b # post \<Longrightarrow>
     (\<exists>post1. L1 = pre @ b # post1 \<and> post = post1 @ L2) \<or>
     (\<exists>pre2. pre = L1 @ pre2 \<and> L2 = pre2 @ b # post)"
proof (induction L1 arbitrary: pre)
  case Nil
  then show ?case by simp
next
  case (Cons x L1)
  show ?case
  proof (cases pre)
    case Nil
    with Cons.prems show ?thesis by simp
  next
    case (Cons y pre')
    with Cons.prems have "L1 @ L2 = pre' @ b # post" "x = y" by simp_all
    with Cons.IH[of pre'] Cons show ?thesis by simp
  qed
qed

lemma postorder_edges_append:
  assumes 1: "postorder_edges F V L1" and 2: "postorder_edges F (V \<union> set L1) L2"
  shows "postorder_edges F V (L1 @ L2)"
  unfolding postorder_edges_def
proof (intro allI impI ballI)
  fix pre b post s
  assume split: "L1 @ L2 = pre @ b # post" and s: "s \<in> set (successors F b)"
  from append_split_cases[OF split] consider
      (left) post1 where "L1 = pre @ b # post1" "post = post1 @ L2"
    | (right) pre2 where "pre = L1 @ pre2" "L2 = pre2 @ b # post"
    by blast
  then show "s \<in> V \<or> s \<in> set pre \<or> s = b \<or> (s \<in> set post \<and> (s, b) \<in> (edges F)\<^sup>*)"
  proof cases
    case left
    from 1 left(1) s have "s \<in> V \<or> s \<in> set pre \<or> s = b \<or>
        (s \<in> set post1 \<and> (s, b) \<in> (edges F)\<^sup>*)"
      unfolding postorder_edges_def by blast
    with left(2) show ?thesis by auto
  next
    case right
    from 2 right(2) s have "s \<in> V \<union> set L1 \<or> s \<in> set pre2 \<or> s = b \<or>
        (s \<in> set post \<and> (s, b) \<in> (edges F)\<^sup>*)"
      unfolding postorder_edges_def by blast
    with right(1) show ?thesis by auto
  qed
qed

lemma postorder_edges_snoc:
  assumes new: "postorder_edges F (insert node V) new"
    and reach: "\<forall>b \<in> set new. (node, b) \<in> (edges F)\<^sup>*"
    and succs: "set (successors F node) \<subseteq> insert node V \<union> set new"
  shows "postorder_edges F V (new @ [node])"
  unfolding postorder_edges_def
proof (intro allI impI ballI)
  fix pre b post s
  assume split: "new @ [node] = pre @ b # post" and s: "s \<in> set (successors F b)"
  from append_split_cases[OF split] consider
      (inner) post1 where "new = pre @ b # post1" "post = post1 @ [node]"
    | (last) "pre = new" "b = node" "post = []"
    by (auto simp: Cons_eq_append_conv)
  then show "s \<in> V \<or> s \<in> set pre \<or> s = b \<or> (s \<in> set post \<and> (s, b) \<in> (edges F)\<^sup>*)"
  proof cases
    case inner
    with new s have "s \<in> insert node V \<or> s \<in> set pre \<or> s = b \<or>
        (s \<in> set post1 \<and> (s, b) \<in> (edges F)\<^sup>*)"
      unfolding postorder_edges_def by blast
    moreover from inner reach have "(node, b) \<in> (edges F)\<^sup>*" by simp
    ultimately show ?thesis using inner by auto
  next
    case last
    with succs s show ?thesis by auto
  qed
qed

lemma dfs_correct:
  "node \<notin> fst st \<Longrightarrow>
     \<exists>new. dfsPostorder F node st =
              (fst st \<union> reach_unvisited F (fst st) node, snd st @ new @ [node]) \<and>
           set new = reach_unvisited F (fst st) node - {node} \<and> distinct new \<and>
           postorder_edges F (fst st) (new @ [node])"
  "\<exists>new. dfs_succs F ss st =
              (fst st \<union> (\<Union>s \<in> set ss. reach_unvisited F (fst st) s), snd st @ new) \<and>
           set new = (\<Union>s \<in> set ss. reach_unvisited F (fst st) s) \<and> distinct new \<and>
           postorder_edges F (fst st) new"
proof (induction F node st and F ss st rule: dfsPostorder_dfs_succs.induct)
  case (1 F node visited order)
  let ?V = "insert node visited"
  let ?U = "\<Union>s \<in> set (successors F node). reach_unvisited F ?V s"
  from 1 have node: "node \<notin> visited" by simp
  from "1.IH" obtain new where
    run: "dfs_succs F (successors F node) (?V, order) = (?V \<union> ?U, order @ new)"
    and new: "set new = ?U" "distinct new" "postorder_edges F ?V new"
    by auto
  have R: "reach_unvisited F visited node = insert node ?U"
    by (rule reach_unvisited_node[OF node])
  have notin: "node \<notin> ?U"
    using reach_unvisited_disjoint[of F ?V] by blast
  have "\<forall>b \<in> set new. (node, b) \<in> (edges F)\<^sup>*"
    using new(1) R reach_unvisited_edges[of _ F visited node] by blast
  moreover have "set (successors F node) \<subseteq> insert node visited \<union> set new"
    unfolding new(1) using reach_unvisited_self[of _ ?V F] by blast
  ultimately have "postorder_edges F visited (new @ [node])"
    using new(3) by (intro postorder_edges_snoc)
  moreover have "dfsPostorder F node (visited, order) =
      (visited \<union> reach_unvisited F visited node, order @ new @ [node])"
    using run R by simp
  moreover have "set new = reach_unvisited F visited node - {node}"
    using new(1) R notin by auto
  ultimately show ?case using new(2) by auto
next
  case (2 F st)
  show ?case by (simp add: postorder_edges_def)
next
  case (3 F succ rest visited order)
  show ?case
  proof (cases "succ \<in> visited")
    case True
    then have "reach_unvisited F visited succ = {}" by (simp add: reach_unvisited_def)
    with True "3.IH"(3) show ?thesis by simp
  next
    case False
    let ?R = "reach_unvisited F visited succ"
    let ?V1 = "visited \<union> ?R"
    from "3.IH"(1) False obtain new1 where
      run1: "dfsPostorder F succ (visited, order) = (?V1, order @ new1 @ [succ])"
      and new1: "set new1 = ?R - {succ}" "distinct new1" "postorder_edges F visited (new1 @ [succ])"
      by auto
    have set1: "set (new1 @ [succ]) = ?R"
      using new1(1) reach_unvisited_self[OF False, of F] by auto
    let ?U1 = "\<Union>s \<in> set rest. reach_unvisited F ?V1 s"
    from "3.IH"(2)[OF False] run1 obtain new2 where
      run2: "dfs_succs F rest (?V1, order @ new1 @ [succ]) = (?V1 \<union> ?U1, (order @ new1 @ [succ]) @ new2)"
      and new2: "set new2 = ?U1" "distinct new2" "postorder_edges F ?V1 new2"
      by auto
    have disj: "?U1 \<inter> ?V1 = {}"
      using reach_unvisited_disjoint[of F ?V1] by blast
    have U: "?R \<union> ?U1 = (\<Union>s \<in> set (succ # rest). reach_unvisited F visited s)"
    proof -
      have a: "reach_unvisited F visited t \<subseteq> ?R \<union> reach_unvisited F ?V1 t" for t
        by (rule reach_unvisited_after)
      have b: "reach_unvisited F ?V1 t \<subseteq> reach_unvisited F visited t" for t
        by (rule reach_unvisited_antimono) simp
      have "?R \<union> ?U1 = ?R \<union> (\<Union>s \<in> set rest. reach_unvisited F visited s)"
        using a b by blast
      then show ?thesis by simp
    qed
    let ?new = "(new1 @ [succ]) @ new2"
    have "dfs_succs F (succ # rest) (visited, order) =
            (visited \<union> (\<Union>s \<in> set (succ # rest). reach_unvisited F visited s), order @ ?new)"
      using False run1 run2 U by (simp add: Un_assoc)
    moreover have "set ?new = (\<Union>s \<in> set (succ # rest). reach_unvisited F visited s)"
      using set1 new2(1) U by (simp only: set_append)
    moreover have "distinct ?new"
    proof -
      have "distinct (new1 @ [succ])" using new1(1,2) by auto
      moreover have "set (new1 @ [succ]) \<inter> set new2 = {}"
        unfolding set1 new2(1) using disj by auto
      ultimately show ?thesis using new2(2) by (simp only: distinct_append)
    qed
    moreover have "postorder_edges F visited ?new"
    proof (rule postorder_edges_append)
      show "postorder_edges F visited (new1 @ [succ])" by (rule new1(3))
      show "postorder_edges F (visited \<union> set (new1 @ [succ])) new2"
        unfolding set1 by (rule new2(3))
    qed
    ultimately show ?thesis by (intro exI[of _ ?new]) simp
  qed
qed

text \<open>
  C6. From the entry block, \<^verbatim>\<open>dfsPostorder\<close> returns a sequence that holds every block
  reachable by successor edges exactly once and no other block, in depth-first postorder:
  every successor of a block stands before it in the sequence, unless it is the block itself
  or a block that was still being traversed (it stands later and reaches the block); and
  every call on an unvisited block appends, before the block itself, exactly the blocks it
  can reach through blocks not yet visited at that time. Graphs with cycles are included.
\<close>

theorem dfsPostorder_reachable_postorder:
  "distinct (block_order F) \<and> set (block_order F) = reachable F \<and>
   (\<forall>pre b post. block_order F = pre @ b # post \<longrightarrow>
      (\<forall>s \<in> set (successors F b).
         s \<in> set pre \<or> s = b \<or> (s \<in> set post \<and> (s, b) \<in> (edges F)\<^sup>*))) \<and>
   (\<forall>node visited order. node \<notin> visited \<longrightarrow>
      (\<exists>new. dfsPostorder F node (visited, order) =
                (visited \<union> reach_unvisited F visited node, order @ new @ [node]) \<and>
             set new = reach_unvisited F visited node - {node} \<and> distinct new))"
proof -
  from dfs_correct(1)[of 0 "({}, [])" F] obtain new where
    run: "dfsPostorder F 0 ({}, []) = (reach_unvisited F {} 0, new @ [0])"
    and new: "set new = reach_unvisited F {} 0 - {0}" "distinct new"
      "postorder_edges F {} (new @ [0])"
    by auto
  have ord: "block_order F = new @ [0]" unfolding block_order_def run by simp
  have "distinct (block_order F)" using new(1,2) by (simp add: ord)
  moreover have "set (block_order F) = reachable F"
  proof -
    have "0 \<in> reach_unvisited F {} 0" by (simp add: reach_unvisited_self)
    with new(1) have "set (block_order F) = reach_unvisited F {} 0" by (auto simp: ord)
    then show ?thesis by (simp add: reach_unvisited_empty reachable_def)
  qed
  moreover have "\<forall>pre b post. block_order F = pre @ b # post \<longrightarrow>
      (\<forall>s \<in> set (successors F b).
         s \<in> set pre \<or> s = b \<or> (s \<in> set post \<and> (s, b) \<in> (edges F)\<^sup>*))"
    using new(3) unfolding ord postorder_edges_def by simp
  moreover have "\<forall>node visited order. node \<notin> visited \<longrightarrow>
      (\<exists>new. dfsPostorder F node (visited, order) =
                (visited \<union> reach_unvisited F visited node, order @ new @ [node]) \<and>
             set new = reach_unvisited F visited node - {node} \<and> distinct new)"
  proof (intro allI impI)
    fix node visited order
    assume "node \<notin> (visited :: bid set)"
    with dfs_correct(1)[of node "(visited, order)" F] obtain new where
      "dfsPostorder F node (visited, order) =
         (visited \<union> reach_unvisited F visited node, order @ new @ [node])"
      "set new = reach_unvisited F visited node - {node}" "distinct new"
      by auto
    then show "\<exists>new. dfsPostorder F node (visited, order) =
                (visited \<union> reach_unvisited F visited node, order @ new @ [node]) \<and>
             set new = reach_unvisited F visited node - {node} \<and> distinct new"
      by blast
  qed
  ultimately show ?thesis by (intro conjI)
qed

lemma cyclic_cfg_order: "block_order cyclic_cfg = [2, 1, 0]"
  by (simp add: block_order_def cyclic_cfg_def successors_def)

text \<open>On the cyclic graph the order is 2, 1, 0 and block 3 is not reachable.\<close>

theorem dfsPostorder_reachable_postorder_witness:
  "block_order cyclic_cfg = [2, 1, 0] \<and> distinct (block_order cyclic_cfg) \<and>
   reachable cyclic_cfg = {0, 1, 2} \<and> 3 \<notin> reachable cyclic_cfg"
proof -
  from dfsPostorder_reachable_postorder[of cyclic_cfg]
  have d: "distinct (block_order cyclic_cfg)"
    and "set (block_order cyclic_cfg) = reachable cyclic_cfg"
    by blast+
  then have "reachable cyclic_cfg = set [2, 1, 0]" by (simp only: cyclic_cfg_order)
  also have "\<dots> = {0, 1, 2}" by auto
  finally have r: "reachable cyclic_cfg = {0, 1, 2}" .
  have "(3::nat) \<notin> {0, 1, 2}" by simp
  with r d show ?thesis by (simp only: cyclic_cfg_order simp_thms)
qed

section \<open>The solver: bounds and termination\<close>

lemma backward_transfer_mono: "X \<subseteq> Y \<Longrightarrow> backward_transfer Is X \<subseteq> backward_transfer Is Y"
  by (induction Is) (auto split: instr.splits)

lemma backward_transfer_bound: "backward_transfer Is X \<subseteq> X \<union> {L. Load L \<in> set Is}"
  by (induction Is) (auto split: instr.splits)

lemma new_in_of_mono: "X \<subseteq> Y \<Longrightarrow> new_in_of F b X \<subseteq> new_in_of F b Y"
  by (simp add: new_in_of_backward backward_transfer_mono)

lemma new_out_of_mono: "(\<And>b. li b \<subseteq> li' b) \<Longrightarrow> new_out_of F li b \<subseteq> new_out_of F li' b"
  by (auto simp: new_out_of_Union)

lemma new_in_of_bound: "b \<in> Bs \<Longrightarrow> X \<subseteq> loaded_in F Bs \<Longrightarrow> new_in_of F b X \<subseteq> loaded_in F Bs"
  using backward_transfer_bound[of "instructions F b" X]
  by (auto simp: new_in_of_backward loaded_in_def)

lemma new_out_of_bound: "(\<And>b. li b \<subseteq> U) \<Longrightarrow> new_out_of F li b \<subseteq> U"
  by (auto simp: new_out_of_Union)

lemma visit_block_bounded:
  assumes "bounded_by (loaded_in F Bs) (li, lo)" "BB \<in> Bs"
    and "visit_block F BB (li, lo, ch) = (li', lo', ch')"
  shows "bounded_by (loaded_in F Bs) (li', lo')"
proof -
  from assms(1) have li: "\<And>b. li b \<subseteq> loaded_in F Bs" and lo: "\<And>b. lo b \<subseteq> loaded_in F Bs"
    by (auto simp: bounded_by_def)
  have no: "new_out_of F li BB \<subseteq> loaded_in F Bs" by (rule new_out_of_bound) (rule li)
  have ni: "new_in_of F BB (new_out_of F li BB) \<subseteq> loaded_in F Bs"
    by (rule new_in_of_bound[OF assms(2) no])
  from assms(3) have "li' = li(BB := new_in_of F BB (new_out_of F li BB))"
    "lo' = lo(BB := new_out_of F li BB)"
    by (simp_all add: visit_block_eq)
  with li lo no ni show ?thesis by (simp add: bounded_by_def)
qed

lemma fold_visit_bounded:
  "bounded_by (loaded_in F Bs) (li, lo) \<Longrightarrow> set bs \<subseteq> Bs \<Longrightarrow>
   fold (visit_block F) bs (li, lo, ch) = (li', lo', ch') \<Longrightarrow>
   bounded_by (loaded_in F Bs) (li', lo')"
proof (induction bs arbitrary: li lo ch)
  case Nil
  then show ?case by simp
next
  case (Cons b bs)
  obtain li1 lo1 ch1 where v: "visit_block F b (li, lo, ch) = (li1, lo1, ch1)"
    by (cases "visit_block F b (li, lo, ch)") auto
  from Cons.prems(2) have b: "b \<in> Bs" and bs: "set bs \<subseteq> Bs" by auto
  from visit_block_bounded[OF Cons.prems(1) b v] have "bounded_by (loaded_in F Bs) (li1, lo1)" .
  moreover from Cons.prems(3) v have "fold (visit_block F) bs (li1, lo1, ch1) = (li', lo', ch')"
    by simp
  ultimately show ?case using Cons.IH bs by blast
qed

lemma solver_pass_bounded:
  "bounded_by (loaded_in F (set order)) st \<Longrightarrow> solver_pass F order st = (li, lo, ch) \<Longrightarrow>
   bounded_by (loaded_in F (set order)) (li, lo)"
  using fold_visit_bounded[of F "set order" "fst st" "snd st" order False li lo ch]
  by (simp add: solver_pass_def)

lemma init_bounded: "bounded_by U init_liveness"
  by (simp add: bounded_by_def init_liveness_def)

lemma solver_passes_bounded: "bounded_by (loaded_in F (set order)) (solver_passes F order n)"
proof (induction n)
  case 0
  show ?case by (simp add: init_bounded)
next
  case (Suc n)
  obtain li lo ch where p: "solver_pass F order (solver_passes F order n) = (li, lo, ch)"
    by (cases "solver_pass F order (solver_passes F order n)") auto
  from solver_pass_bounded[OF Suc p] p show ?case by simp
qed

lemma solver_state_at_bounded:
  "solver_state_at F order n k = (li, lo, ch) \<Longrightarrow> bounded_by (loaded_in F (set order)) (li, lo)"
  using fold_visit_bounded[of F "set order" "fst (solver_passes F order n)"
      "snd (solver_passes F order n)" "take k order" False li lo ch]
    solver_passes_bounded[of F order n] set_take_subset[of k order]
  by (simp add: solver_state_at_def)

lemma solver_result_bounded:
  assumes "solver F order init_liveness = Some r"
  shows "bounded_by (loaded_in F (set order)) r"
  using solver_invariant_rule[OF assms, of "bounded_by (loaded_in F (set order))"]
    init_bounded solver_pass_bounded by blast

lemma visit_block_ascending:
  assumes asc: "ascending F order (li, lo)" and BB: "BB \<in> set order"
    and v: "visit_block F BB (li, lo, ch) = (li', lo', ch')"
  shows "ascending F order (li', lo')" and "\<And>b. li b \<subseteq> li' b" and "\<And>b. lo b \<subseteq> lo' b"
    and "ch' \<Longrightarrow> ch \<or> li BB \<subset> li' BB \<or> lo BB \<subset> lo' BB"
proof -
  let ?no = "new_out_of F li BB"
  let ?ni = "new_in_of F BB ?no"
  from v have li': "li' = li(BB := ?ni)" and lo': "lo' = lo(BB := ?no)"
    and ch': "ch' = (ch \<or> ?no \<noteq> lo BB \<or> ?ni \<noteq> li BB)"
    by (simp_all add: visit_block_eq)
  from asc BB have 1: "lo BB \<subseteq> ?no" and 2: "li BB \<subseteq> new_in_of F BB (lo BB)"
    by (auto simp: ascending_def)
  from 2 new_in_of_mono[OF 1, of F BB] have 3: "li BB \<subseteq> ?ni" by blast
  show gi: "li b \<subseteq> li' b" for b using 3 by (simp add: li')
  show go: "lo b \<subseteq> lo' b" for b using 1 by (simp add: lo')
  show "ch \<or> li BB \<subset> li' BB \<or> lo BB \<subset> lo' BB" if ch'
    using that 1 3 unfolding ch' li' lo' by auto
  show "ascending F order (li', lo')"
    unfolding ascending_def
  proof (intro ballI conjI; simp only: fst_conv snd_conv)
    fix b assume b: "b \<in> set order"
    have m: "new_out_of F li b \<subseteq> new_out_of F li' b"
      by (rule new_out_of_mono) (rule gi)
    show "lo' b \<subseteq> new_out_of F li' b"
    proof (cases "b = BB")
      case True
      with m show ?thesis by (simp add: lo')
    next
      case False
      with asc b have "lo' b \<subseteq> new_out_of F li b" by (simp add: lo' ascending_def)
      with m show ?thesis by blast
    qed
    show "li' b \<subseteq> new_in_of F b (lo' b)"
    proof (cases "b = BB")
      case True
      then show ?thesis by (simp add: li' lo')
    next
      case False
      with asc b show ?thesis by (simp add: li' lo' ascending_def)
    qed
  qed
qed

lemma fold_visit_ascending:
  "ascending F order (li, lo) \<Longrightarrow> set bs \<subseteq> set order \<Longrightarrow>
   fold (visit_block F) bs (li, lo, ch) = (li', lo', ch') \<Longrightarrow>
     ascending F order (li', lo') \<and> (\<forall>b. li b \<subseteq> li' b \<and> lo b \<subseteq> lo' b) \<and>
     (ch' \<longrightarrow> ch \<or> (\<exists>b \<in> set order. li b \<subset> li' b \<or> lo b \<subset> lo' b))"
proof (induction bs arbitrary: li lo ch)
  case Nil
  then show ?case by simp
next
  case (Cons BB bs)
  obtain li1 lo1 ch1 where v: "visit_block F BB (li, lo, ch) = (li1, lo1, ch1)"
    by (cases "visit_block F BB (li, lo, ch)") auto
  from Cons.prems(2) have BB: "BB \<in> set order" and bs: "set bs \<subseteq> set order" by auto
  note step = visit_block_ascending[OF Cons.prems(1) BB v]
  from Cons.prems(3) v have f: "fold (visit_block F) bs (li1, lo1, ch1) = (li', lo', ch')"
    by simp
  from Cons.IH[OF step(1) bs f]
  have asc: "ascending F order (li', lo')"
    and g: "\<And>b. li1 b \<subseteq> li' b" "\<And>b. lo1 b \<subseteq> lo' b"
    and c: "ch' \<Longrightarrow> ch1 \<or> (\<exists>b \<in> set order. li1 b \<subset> li' b \<or> lo1 b \<subset> lo' b)"
    by blast+
  have gi: "li b \<subseteq> li' b" for b using step(2)[of b] g(1)[of b] by blast
  have go: "lo b \<subseteq> lo' b" for b using step(3)[of b] g(2)[of b] by blast
  have "ch \<or> (\<exists>b \<in> set order. li b \<subset> li' b \<or> lo b \<subset> lo' b)" if ch'
  proof -
    from c[OF that] show ?thesis
    proof
      assume ch1
      from step(4)[OF this] have "ch \<or> li BB \<subset> li1 BB \<or> lo BB \<subset> lo1 BB" .
      with g(1)[of BB] g(2)[of BB] BB show ?thesis by blast
    next
      assume "\<exists>b \<in> set order. li1 b \<subset> li' b \<or> lo1 b \<subset> lo' b"
      then obtain b where "b \<in> set order" "li1 b \<subset> li' b \<or> lo1 b \<subset> lo' b" by blast
      with step(2)[of b] step(3)[of b] show ?thesis by blast
    qed
  qed
  with asc gi go show ?case by blast
qed

lemma solver_pass_ascending:
  assumes "ascending F order st" "solver_pass F order st = (li, lo, ch)"
  shows "ascending F order (li, lo)"
    and "\<And>b. fst st b \<subseteq> li b" and "\<And>b. snd st b \<subseteq> lo b"
    and "ch \<Longrightarrow> \<exists>b \<in> set order. fst st b \<subset> li b \<or> snd st b \<subset> lo b"
  using fold_visit_ascending[of F order "fst st" "snd st" order False li lo ch] assms
  by (simp_all add: solver_pass_def)

lemma init_ascending: "ascending F order init_liveness"
  by (simp add: ascending_def init_liveness_def)

lemma content_grows:
  assumes "\<And>b. fst st b \<subseteq> fst st' b" "\<And>b. snd st b \<subseteq> snd st' b"
    and "\<exists>b \<in> set order. fst st b \<subset> fst st' b \<or> snd st b \<subset> snd st' b"
  shows "content order st \<subset> content order st'"
proof -
  have "content order st \<subseteq> content order st'"
    using assms(1,2) by (auto simp: content_def split: if_splits)
  moreover from assms(3) obtain b where b: "b \<in> set order"
    and d: "fst st b \<subset> fst st' b \<or> snd st b \<subset> snd st' b" by blast
  from d have "\<exists>x. x \<in> content order st' \<and> x \<notin> content order st"
  proof
    assume "fst st b \<subset> fst st' b"
    then obtain L where "L \<in> fst st' b" "L \<notin> fst st b" by blast
    with b have "(b, False, L) \<in> content order st' \<and> (b, False, L) \<notin> content order st"
      by (simp add: content_def)
    then show ?thesis by blast
  next
    assume "snd st b \<subset> snd st' b"
    then obtain L where "L \<in> snd st' b" "L \<notin> snd st b" by blast
    with b have "(b, True, L) \<in> content order st' \<and> (b, True, L) \<notin> content order st"
      by (simp add: content_def)
    then show ?thesis by blast
  qed
  ultimately show ?thesis by blast
qed

lemma content_bounded: "bounded_by U st \<Longrightarrow> content order st \<subseteq> set order \<times> UNIV \<times> U"
  by (auto simp: content_def bounded_by_def split: if_splits)

lemma finite_loaded_in: "finite Bs \<Longrightarrow> finite (loaded_in F Bs)"
proof -
  assume fin: "finite Bs"
  have "loaded_in F Bs \<subseteq> (\<Union>b \<in> Bs. (\<lambda>I. case I of Load L \<Rightarrow> L | _ \<Rightarrow> 0) ` set (instructions F b))"
    by (force simp: loaded_in_def)
  moreover have "finite (\<Union>b \<in> Bs. (\<lambda>I. case I of Load L \<Rightarrow> L | _ \<Rightarrow> 0) ` set (instructions F b))"
    using fin by simp
  ultimately show ?thesis by (rule finite_subset)
qed

lemma solver_terminates_from:
  assumes "finite U"
    and pres: "\<And>st li lo ch. bounded_by U st \<Longrightarrow> solver_pass F order st = (li, lo, ch) \<Longrightarrow>
                 bounded_by U (li, lo)"
  shows "ascending F order st \<Longrightarrow> bounded_by U st \<Longrightarrow> \<exists>r. solver F order st = Some r"
proof (induction "card ((set order \<times> (UNIV :: bool set) \<times> U) - content order st)"
    arbitrary: st rule: less_induct)
  case less
  let ?D = "set order \<times> (UNIV :: bool set) \<times> U"
  have finD: "finite ?D" using assms(1) by simp
  obtain li lo ch where p: "solver_pass F order st = (li, lo, ch)"
    by (cases "solver_pass F order st") auto
  show ?case
  proof (cases ch)
    case False
    with p show ?thesis by (subst solver.simps) simp
  next
    case True
    note asc = solver_pass_ascending[OF less.prems(1) p]
    have bnd: "bounded_by U (li, lo)" by (rule pres[OF less.prems(2) p])
    have "content order st \<subset> content order (li, lo)"
      using asc(2,3) asc(4)[OF True] by (intro content_grows) simp_all
    moreover have "content order (li, lo) \<subseteq> ?D" by (rule content_bounded[OF bnd])
    ultimately have "?D - content order (li, lo) \<subset> ?D - content order st" by blast
    then have "card (?D - content order (li, lo)) < card (?D - content order st)"
      using finD by (intro psubset_card_mono) simp_all
    from less.hyps[OF this asc(1) bnd] obtain r where
      "solver F order (li, lo) = Some r" by blast
    with p True show ?thesis by (subst solver.simps) simp
  qed
qed

lemma solver_terminates_init: "\<exists>r. solver F order init_liveness = Some r"
proof (rule solver_terminates_from[where U = "loaded_in F (set order)"])
  show "finite (loaded_in F (set order))" by (simp add: finite_loaded_in)
  show "ascending F order init_liveness" by (rule init_ascending)
  show "bounded_by (loaded_in F (set order)) init_liveness" by (rule init_bounded)
  show "bounded_by (loaded_in F (set order)) (li, lo)"
    if "bounded_by (loaded_in F (set order)) st" "solver_pass F order st = (li, lo, ch)"
    for st li lo ch
    using that by (rule solver_pass_bounded)
qed

lemma block_order_set: "set (block_order F) = reachable F"
proof -
  from dfs_correct(1)[of 0 "({}, [])" F] obtain new where
    run: "dfsPostorder F 0 ({}, []) = (reach_unvisited F {} 0, new @ [0])"
    and new: "set new = reach_unvisited F {} 0 - {0}"
    by auto
  have ord: "block_order F = new @ [0]" unfolding block_order_def run by simp
  have "0 \<in> reach_unvisited F {} 0" by (simp add: reach_unvisited_self)
  with new have "set (block_order F) = reach_unvisited F {} 0" by (auto simp: ord)
  then show ?thesis by (simp add: reach_unvisited_empty reachable_def)
qed

lemma block_order_distinct: "distinct (block_order F)"
proof -
  from dfs_correct(1)[of 0 "({}, [])" F] obtain new where
    run: "dfsPostorder F 0 ({}, []) = (reach_unvisited F {} 0, new @ [0])"
    and new: "set new = reach_unvisited F {} 0 - {0}" "distinct new"
    by auto
  have ord: "block_order F = new @ [0]" unfolding block_order_def run by simp
  show ?thesis using new by (simp add: ord)
qed

lemma solver_passes_ascending: "ascending F order (solver_passes F order n)"
proof (induction n)
  case 0
  show ?case by (simp add: init_ascending)
next
  case (Suc n)
  obtain li lo ch where p: "solver_pass F order (solver_passes F order n) = (li, lo, ch)"
    by (cases "solver_pass F order (solver_passes F order n)") auto
  from solver_pass_ascending(1)[OF Suc p] p show ?case by simp
qed

lemma solver_passes_grow:
  "fst (solver_passes F order n) B \<subseteq> fst (solver_passes F order (Suc n)) B"
  "snd (solver_passes F order n) B \<subseteq> snd (solver_passes F order (Suc n)) B"
proof -
  obtain li lo ch where p: "solver_pass F order (solver_passes F order n) = (li, lo, ch)"
    by (cases "solver_pass F order (solver_passes F order n)") auto
  note g = solver_pass_ascending(2,3)[OF solver_passes_ascending p]
  show "fst (solver_passes F order n) B \<subseteq> fst (solver_passes F order (Suc n)) B"
    using g(1)[of B] p by simp
  show "snd (solver_passes F order n) B \<subseteq> snd (solver_passes F order (Suc n)) B"
    using g(2)[of B] p by simp
qed



text \<open>
  C8. The \<^verbatim>\<open>while (changed)\<close> loop of the solver ends on every procedure, and so does
  the pass: from the empty sets every pass only grows the sets, and they stay inside the
  finite set of locations loaded in reachable blocks.
\<close>

theorem solver_terminates:
  "(\<exists>loads_in loads_out. solver F (block_order F) init_liveness = Some (loads_in, loads_out)) \<and>
   (\<exists>changed F'. runOnFunction F = Some (changed, F')) \<and>
   finite (loaded_in F (reachable F)) \<and>
   (\<forall>n B. fst (solver_passes F (block_order F) n) B \<subseteq> fst (solver_passes F (block_order F) (Suc n)) B \<and>
          snd (solver_passes F (block_order F) n) B \<subseteq> snd (solver_passes F (block_order F) (Suc n)) B \<and>
          fst (solver_passes F (block_order F) n) B \<subseteq> loaded_in F (reachable F) \<and>
          snd (solver_passes F (block_order F) n) B \<subseteq> loaded_in F (reachable F))"
proof -
  from solver_terminates_init[of F "block_order F"] obtain li lo where
    s: "solver F (block_order F) init_liveness = Some (li, lo)" by auto
  then have "\<exists>changed F'. runOnFunction F = Some (changed, F')"
    by (simp add: runOnFunction_def dead_stores_def)
  moreover have "finite (loaded_in F (reachable F))"
  proof -
    have "finite (loaded_in F (set (block_order F)))" by (rule finite_loaded_in) simp
    then show ?thesis by (simp only: block_order_set)
  qed
  moreover have "fst (solver_passes F (block_order F) n) B \<subseteq> loaded_in F (reachable F) \<and>
          snd (solver_passes F (block_order F) n) B \<subseteq> loaded_in F (reachable F)" for n B
    using solver_passes_bounded[of F "block_order F" n]
    by (simp add: bounded_by_def block_order_set)
  ultimately show ?thesis using s solver_passes_grow[of F "block_order F"] by blast
qed


text \<open>
  C10. After every block visit of every pass, and at convergence, each location in a
  \<open>loads_in\<close> or \<open>loads_out\<close> set is the pointer operand of a load in a block reachable
  from the entry; the transfer of a store never adds a location.
\<close>

theorem loads_sets_hold_loaded_locations:
  "(\<forall>n k li lo ch B. solver_state_at F (block_order F) n k = (li, lo, ch) \<longrightarrow>
      li B \<union> lo B \<subseteq> loaded_in F (reachable F)) \<and>
   (\<forall>li lo B. solver F (block_order F) init_liveness = Some (li, lo) \<longrightarrow>
      li B \<union> lo B \<subseteq> loaded_in F (reachable F)) \<and>
   (\<forall>v ptr vol X. transfer (Store v ptr vol) X \<subseteq> X)"
proof (intro conjI allI impI)
  fix n k li lo ch B
  assume "solver_state_at F (block_order F) n k = (li, lo, ch)"
  from solver_state_at_bounded[OF this]
  show "li B \<union> lo B \<subseteq> loaded_in F (reachable F)"
    by (simp add: bounded_by_def block_order_set)
next
  fix li lo B
  assume "solver F (block_order F) init_liveness = Some (li, lo)"
  from solver_result_bounded[OF this]
  show "li B \<union> lo B \<subseteq> loaded_in F (reachable F)"
    by (simp add: bounded_by_def block_order_set)
next
  fix v ptr vol X
  show "transfer (Store v ptr vol) X \<subseteq> X" by auto
qed


lemma store_then_branch_reachable: "reachable store_then_branch = {0, 1}"
proof -
  have "reachable store_then_branch = set [1, 0]"
    by (simp only: block_order_set[symmetric] store_then_branch_order)
  then show ?thesis by auto
qed


text \<open>On the store-then-branch procedure the only location in any set is the loaded one.\<close>

theorem loads_sets_hold_loaded_locations_witness:
  "solver store_then_branch (block_order store_then_branch) init_liveness = Some (branch_in, branch_out) \<and>
   branch_in 1 \<union> branch_out 1 \<subseteq> loaded_in store_then_branch (reachable store_then_branch) \<and>
   branch_in 1 \<union> branch_out 1 = {1} \<and>
   solver_state_at store_then_branch (block_order store_then_branch) 0 1 = (branch_in, \<lambda>BB. {}, True)"
proof -
  have s: "solver store_then_branch (block_order store_then_branch) init_liveness = Some (branch_in, branch_out)"
    by (simp only: store_then_branch_order store_then_branch_solver)
  have "solver_state_at store_then_branch [1, 0] 0 1 = (branch_in, \<lambda>BB. {}, True)"
    by (auto simp: solver_state_at_def init_liveness_def visit_block_eq
        new_out_of_Union new_in_of_backward successors_def instructions_def store_then_branch_def
        branch_in_def fun_eq_iff)
  then have "solver_state_at store_then_branch (block_order store_then_branch) 0 1 = (branch_in, \<lambda>BB. {}, True)"
    by (simp only: store_then_branch_order)
  moreover have "branch_in 1 \<union> branch_out 1 = {1}" by (simp add: branch_in_def branch_out_def)
  ultimately show ?thesis using s loads_sets_hold_loaded_locations[of store_then_branch] by blast
qed

section \<open>The marker: no false elimination\<close>

lemma fold_mark_instr:
  "fold (mark_instr BB) (rev (enumerate n Is)) (X, te) =
     (backward_transfer Is X, te @ block_marks BB n Is X)"
proof (induction Is arbitrary: n)
  case Nil
  show ?case by simp
next
  case (Cons I Is)
  show ?case by (cases I) (auto simp: Cons.IH)
qed

lemma set_block_marks:
  "set (block_marks BB n Is X) = {(BB, n + i) | i. dead_at Is X i}"
proof (induction Is arbitrary: n)
  case Nil
  show ?case by (simp add: dead_at_def)
next
  case (Cons I Is)
  have tail: "{(BB, n + i) | i. dead_at (I # Is) X i \<and> 0 < i} = {(BB, Suc n + i) | i. dead_at Is X i}"
  proof -
    have "dead_at (I # Is) X (Suc i) = dead_at Is X i" for i
      by (simp add: dead_at_def)
    then have "{(BB, n + i) | i. dead_at (I # Is) X i \<and> 0 < i} = {(BB, n + Suc i) | i. dead_at Is X i}"
      by (auto simp: gr0_conv_Suc)
    then show ?thesis by simp
  qed
  have head: "dead_at (I # Is) X 0 \<longleftrightarrow> (\<exists>v ptr vol. I = Store v ptr vol \<and> ptr \<notin> backward_transfer Is X)"
    by (simp add: dead_at_def)
  have split: "{(BB, n + i) | i. dead_at (I # Is) X i} =
      {(BB, n + i) | i. dead_at (I # Is) X i \<and> 0 < i} \<union> (if dead_at (I # Is) X 0 then {(BB, n)} else {})"
    by (auto split: if_splits) (metis add_0_right gr0I)+
  show ?case
    unfolding split tail using head
    by (cases I) (auto simp: Cons.IH)
qed

lemma mark_block_eq:
  "mark_block F BB (lo, te) =
     (lo(BB := backward_transfer (instructions F BB) (lo BB)),
      te @ block_marks BB 0 (instructions F BB) (lo BB))"
  by (simp add: fold_mark_instr)

declare mark_block.simps [simp del]

lemma fold_mark_block:
  "distinct bs \<Longrightarrow>
   snd (fold (mark_block F) bs (lo, te)) =
     te @ concat (map (\<lambda>b. block_marks b 0 (instructions F b) (lo b)) bs)"
proof (induction bs arbitrary: lo te)
  case Nil
  show ?case by simp
next
  case (Cons b bs)
  let ?lo = "lo(b := backward_transfer (instructions F b) (lo b))"
  from Cons.prems have b: "b \<notin> set bs" and d: "distinct bs" by auto
  have m: "map (\<lambda>c. block_marks c 0 (instructions F c) (?lo c)) bs =
        map (\<lambda>c. block_marks c 0 (instructions F c) (lo c)) bs"
    using b by (intro map_cong) auto
  have "snd (fold (mark_block F) (b # bs) (lo, te)) =
        snd (fold (mark_block F) bs (?lo, te @ block_marks b 0 (instructions F b) (lo b)))"
    by (simp add: mark_block_eq)
  also have "\<dots> = (te @ block_marks b 0 (instructions F b) (lo b)) @
        concat (map (\<lambda>c. block_marks c 0 (instructions F c) (?lo c)) bs)"
    by (rule Cons.IH[OF d])
  also have "\<dots> = te @ concat (map (\<lambda>b. block_marks b 0 (instructions F b) (lo b)) (b # bs))"
    unfolding m by simp
  finally show ?case .
qed

lemma set_mark_dead:
  "distinct order \<Longrightarrow>
   set (mark_dead F order lo) =
     {(b, i). b \<in> set order \<and> dead_at (instructions F b) (lo b) i}"
  by (auto simp: mark_dead_def fold_mark_block set_block_marks)

lemma backward_transfer_drop:
  "i < length Is \<Longrightarrow>
   backward_transfer (drop i Is) X =
     (case Is ! i of
        Load L \<Rightarrow> insert L (backward_transfer (drop (Suc i) Is) X)
      | Store v L vol \<Rightarrow> backward_transfer (drop (Suc i) Is) X - {L}
      | Other \<Rightarrow> backward_transfer (drop (Suc i) Is) X)"
  by (simp add: Cons_nth_drop_Suc[symmetric])

lemma may_read_live:
  assumes fp: "\<forall>B \<in> Bs. new_out_of F li B = lo B \<and> new_in_of F B (lo B) = li B"
    and closed: "\<forall>B \<in> Bs. set (successors F B) \<subseteq> Bs"
  shows "may_read F b i L \<Longrightarrow> b \<in> Bs \<Longrightarrow>
           L \<in> backward_transfer (drop i (instructions F b)) (lo b)"
proof (induction rule: may_read.induct)
  case (load i b L)
  then show ?case by (simp add: backward_transfer_drop)
next
  case (pass i b L)
  from pass.IH[OF pass.prems] pass.hyps(1,2) show ?case
    by (auto simp: backward_transfer_drop split: instr.splits)
next
  case (edge i b s L)
  from closed edge.prems edge.hyps(2) have s: "s \<in> Bs" by blast
  from edge.IH[OF s] have "L \<in> backward_transfer (instructions F s) (lo s)" by simp
  with fp s have "L \<in> li s" by (simp add: new_in_of_backward)
  with edge.hyps(2) have "L \<in> new_out_of F li b" by (auto simp: new_out_of_Union)
  with fp edge.prems edge.hyps(1) show ?case by simp
qed

lemma solver_result_fixpoint:
  assumes "solver F order st = Some (li, lo)"
  shows "\<forall>B \<in> set order. new_out_of F li B = lo B \<and> new_in_of F B (lo B) = li B"
proof -
  from solver_invariant_rule[OF assms, of "\<lambda>st. True"]
  have "solver_pass F order (li, lo) = (li, lo, False)" by simp
  from solver_pass_fixpoint[OF this] show ?thesis by simp
qed

lemma reachable_closed: "\<forall>B \<in> reachable F. set (successors F B) \<subseteq> reachable F"
proof (intro ballI subsetI)
  fix B s assume "B \<in> reachable F" "s \<in> set (successors F B)"
  then have "(0, B) \<in> (edges F)\<^sup>*" "(B, s) \<in> edges F"
    by (simp_all add: reachable_def edges_def)
  then have "(0, s) \<in> (edges F)\<^sup>*" by (rule rtrancl_into_rtrancl)
  then show "s \<in> reachable F" by (simp add: reachable_def)
qed

lemma dead_stores_Some:
  "dead_stores F = Some toErase \<Longrightarrow>
     \<exists>li lo. solver F (block_order F) init_liveness = Some (li, lo) \<and>
             toErase = mark_dead F (block_order F) lo"
  by (auto simp: dead_stores_def split: option.splits)


text \<open>
  C1. Every store the pass deletes stands in a reachable block, and no path of the
  control-flow graph leads from the point after it to a load of its location before another
  store to that location: the pass never deletes a store whose value could be read.
\<close>

theorem no_false_elimination:
  "dead_stores F = Some toErase \<Longrightarrow> (b, i) \<in> set toErase \<Longrightarrow>
     b \<in> reachable F \<and> i < length (instructions F b) \<and>
     (\<exists>v L vol. instructions F b ! i = Store v L vol \<and> \<not> may_read F b (Suc i) L)"
proof -
  assume ds: "dead_stores F = Some toErase" and bi: "(b, i) \<in> set toErase"
  from dead_stores_Some[OF ds] obtain li lo where
    sol: "solver F (block_order F) init_liveness = Some (li, lo)"
    and te: "toErase = mark_dead F (block_order F) lo" by blast
  from bi have "b \<in> reachable F" and dead: "dead_at (instructions F b) (lo b) i"
    unfolding te by (simp_all add: set_mark_dead[OF block_order_distinct] block_order_set)
  from dead obtain v L vol where i: "i < length (instructions F b)"
    and st: "instructions F b ! i = Store v L vol"
    and L: "L \<notin> backward_transfer (drop (Suc i) (instructions F b)) (lo b)"
    by (auto simp: dead_at_def)
  have fp: "\<forall>B \<in> reachable F. new_out_of F li B = lo B \<and> new_in_of F B (lo B) = li B"
    using solver_result_fixpoint[OF sol] by (simp add: block_order_set)
  have "\<not> may_read F b (Suc i) L"
    using may_read_live[OF fp reachable_closed, of b "Suc i" L] \<open>b \<in> reachable F\<close> L by blast
  with \<open>b \<in> reachable F\<close> i st show ?thesis by blast
qed

lemma overwritten_store_dead: "dead_stores overwritten_store = Some [(0, 0)]"
  unfolding overwritten_store_def by code_simp


text \<open>
  On the overwritten-store procedure the pass deletes the first store only; no path reads
  it, while a path from the point after the second store reaches the load.
\<close>

theorem no_false_elimination_witness:
  "dead_stores overwritten_store = Some [(0, 0)] \<and>
   instructions overwritten_store 0 ! 0 = Store 5 1 False \<and>
   \<not> may_read overwritten_store 0 (Suc 0) 1 \<and>
   may_read overwritten_store 0 2 1"
proof -
  have i: "instructions overwritten_store 0 ! 0 = Store 5 1 False"
    by (simp add: overwritten_store_def instructions_def)
  from no_false_elimination[OF overwritten_store_dead, of 0 0]
  have "\<exists>v L vol. instructions overwritten_store 0 ! 0 = Store v L vol \<and>
          \<not> may_read overwritten_store 0 (Suc 0) L" by simp
  with i have n: "\<not> may_read overwritten_store 0 (Suc 0) 1" by simp
  have "may_read overwritten_store 1 0 1"
    by (rule may_read.load) (simp_all add: overwritten_store_def instructions_def)
  then have "may_read overwritten_store 0 2 1"
    by (rule may_read.edge[rotated 2]) (simp_all add: overwritten_store_def instructions_def successors_def)
  with i n overwritten_store_dead show ?thesis by simp
qed

section \<open>What the pass depends on\<close>

lemma dfs_cong:
  assumes "\<forall>b \<in> R. successors F b = successors G b" "\<forall>b \<in> R. set (successors F b) \<subseteq> R"
  shows "node \<in> R \<Longrightarrow> dfsPostorder F node st = dfsPostorder G node st"
    and "set ss \<subseteq> R \<Longrightarrow> dfs_succs F ss st = dfs_succs G ss st"
  using assms
proof (induction F node st and F ss st rule: dfsPostorder_dfs_succs.induct)
  case (1 F node visited order)
  from "1.prems" have s: "successors G node = successors F node" "set (successors F node) \<subseteq> R"
    by auto
  from "1.IH"[OF s(2) "1.prems"(2,3)] s(1) show ?case by simp
next
  case (2 F st)
  show ?case by simp
next
  case (3 F succ rest visited order)
  from "3.prems"(1) have succ: "succ \<in> R" and rest: "set rest \<subseteq> R" by auto
  show ?case
  proof (cases "succ \<in> visited")
    case True
    with "3.IH"(3)[OF _ rest "3.prems"(2,3)] show ?thesis by simp
  next
    case False
    from "3.IH"(1)[OF False succ "3.prems"(2,3)]
    have a: "dfsPostorder F succ (visited, order) = dfsPostorder G succ (visited, order)" .
    from "3.IH"(2)[OF False rest "3.prems"(2,3)]
    have "dfs_succs F rest (dfsPostorder F succ (visited, order)) =
          dfs_succs G rest (dfsPostorder F succ (visited, order))" .
    with a False show ?thesis by simp
  qed
qed

lemma block_order_cong:
  assumes "\<forall>b \<in> reachable F. successors F b = successors G b"
  shows "block_order F = block_order G"
proof -
  have "0 \<in> reachable F" by (simp add: reachable_def)
  from dfs_cong(1)[OF assms reachable_closed this, of "({}, [])"] show ?thesis
    unfolding block_order_def by (rule arg_cong)
qed

lemma backward_transfer_cong:
  "list_all2 same_pointer Is Js \<Longrightarrow> backward_transfer Is X = backward_transfer Js X"
proof (induction Is Js rule: list_all2_induct)
  case Nil
  show ?case by simp
next
  case (Cons I Is J Js)
  then show ?case by (cases I; cases J) auto
qed

lemma block_marks_cong:
  "list_all2 same_pointer Is Js \<Longrightarrow> block_marks BB n Is X = block_marks BB n Js X"
proof (induction Is Js arbitrary: n rule: list_all2_induct)
  case Nil
  show ?case by simp
next
  case (Cons I Is J Js)
  from Cons.hyps(2) have "backward_transfer Is X = backward_transfer Js X"
    by (rule backward_transfer_cong)
  with Cons show ?case by (cases I; cases J) auto
qed

lemma visit_block_cong:
  assumes "agree_on R F G" "BB \<in> R"
  shows "visit_block F BB st = visit_block G BB st"
proof -
  obtain li lo ch where st: "st = (li, lo, ch)" by (cases st) auto
  from assms have s: "successors F BB = successors G BB"
    and i: "list_all2 same_pointer (instructions F BB) (instructions G BB)"
    by (auto simp: agree_on_def)
  have "new_out_of F li BB = new_out_of G li BB" by (simp add: new_out_of_Union s)
  moreover have "new_in_of F BB X = new_in_of G BB X" for X
    by (simp add: new_in_of_backward backward_transfer_cong[OF i])
  ultimately show ?thesis by (simp add: st visit_block_eq)
qed

lemma solver_pass_cong:
  assumes "agree_on R F G" "set order \<subseteq> R"
  shows "solver_pass F order st = solver_pass G order st"
proof -
  have "fold (visit_block F) bs s = fold (visit_block G) bs s" if "set bs \<subseteq> R" for bs s
    using that
  proof (induction bs arbitrary: s)
    case Nil
    show ?case by simp
  next
    case (Cons b bs)
    then show ?case using visit_block_cong[OF assms(1), of b s] by simp
  qed
  with assms(2) show ?thesis by (simp add: solver_pass_def)
qed

lemma solver_cong_Some:
  assumes eq: "\<And>st. solver_pass F order st = solver_pass G order' st"
    and run: "solver F order st = Some r"
  shows "solver G order' st = Some r"
proof -
  define P where "P = (\<lambda>F' o' st' r'. F' = F \<and> o' = order \<longrightarrow> solver G order' st' = Some r')"
  have "P F order st r"
  proof (rule solver.raw_induct[where P = P, OF _ run])
    fix slv F' o' st' r'
    assume IH: "\<And>F order st y. slv F order st = Some y \<Longrightarrow> P F order st y"
      and res: "(case solver_pass F' o' st' of
                   (loads_in, loads_out, changed) \<Rightarrow>
                     if changed then slv F' o' (loads_in, loads_out)
                     else Some (loads_in, loads_out)) = Some r'"
    show "P F' o' st' r'"
      unfolding P_def
    proof (intro impI, elim conjE)
      assume e: "F' = F" "o' = order"
      obtain li lo ch where p: "solver_pass F order st' = (li, lo, ch)"
        by (cases "solver_pass F order st'") auto
      then have q: "solver_pass G order' st' = (li, lo, ch)" by (simp add: eq)
      show "solver G order' st' = Some r'"
      proof (cases ch)
        case True
        with res p e have "slv F order (li, lo) = Some r'" by simp
        from IH[OF this] have "solver G order' (li, lo) = Some r'" by (simp add: P_def)
        with q True show ?thesis by (subst solver.simps) simp
      next
        case False
        with res p e have "r' = (li, lo)" by simp
        with q False show ?thesis by (subst solver.simps) simp
      qed
    qed
  qed
  then show ?thesis by (simp add: P_def)
qed

lemma mark_dead_cong:
  assumes "agree_on R F G" "set order \<subseteq> R"
  shows "mark_dead F order lo = mark_dead G order lo"
proof -
  have "fold (mark_block F) bs s = fold (mark_block G) bs s" if "set bs \<subseteq> R" for bs s
    using that
  proof (induction bs arbitrary: s)
    case Nil
    show ?case by simp
  next
    case (Cons b bs)
    obtain lo te where s: "s = (lo, te)" by (cases s) auto
    from assms(1) Cons.prems have "list_all2 same_pointer (instructions F b) (instructions G b)"
      by (auto simp: agree_on_def)
    then have "mark_block F b s = mark_block G b s"
      by (simp add: s mark_block_eq backward_transfer_cong block_marks_cong)
    with Cons show ?case by simp
  qed
  with assms(2) show ?thesis by (simp add: mark_dead_def)
qed

lemma dead_stores_cong:
  assumes "agree_on (reachable F) F G"
  shows "dead_stores F = dead_stores G"
proof -
  from assms have "\<forall>b \<in> reachable F. successors F b = successors G b"
    by (simp add: agree_on_def)
  then have ord: "block_order G = block_order F" by (rule block_order_cong[symmetric])
  have sub: "set (block_order F) \<subseteq> reachable F" by (simp add: block_order_set)
  obtain r where r: "solver F (block_order F) init_liveness = Some r"
    using solver_terminates_init by blast
  have "solver G (block_order F) init_liveness = Some r"
    by (rule solver_cong_Some[OF _ r]) (rule solver_pass_cong[OF assms sub])
  with r show ?thesis
    by (simp add: dead_stores_def ord mark_dead_cong[OF assms sub])
qed

lemma same_pointer_refl: "same_pointer I I"
  by (cases I) auto

lemma same_shape_agree_on: "same_shape F G \<Longrightarrow> agree_on R F G"
  by (auto simp: same_shape_def agree_on_def successors_def instructions_def)


text \<open>
  C9. Whether the pass deletes a store depends only on pointer operands, positions and
  edges: two procedures that differ only in the value operands and volatile flags of their
  stores have the same instructions deleted and the same returned flag. The pass filters
  no volatile store.
\<close>

theorem store_attributes_ignored:
  "same_shape F G \<Longrightarrow>
     dead_stores F = dead_stores G \<and>
     map_option fst (runOnFunction F) = map_option fst (runOnFunction G)"
proof -
  assume "same_shape F G"
  then have "agree_on (reachable F) F G" by (rule same_shape_agree_on)
  then have d: "dead_stores F = dead_stores G" by (rule dead_stores_cong)
  then have "map_option fst (runOnFunction F) = map_option fst (runOnFunction G)"
    by (simp add: runOnFunction_def split: option.splits)
  with d show ?thesis by simp
qed

lemma volatile_same_shape: "same_shape volatile_store overwritten_store"
  by (auto simp: same_shape_def volatile_store_def overwritten_store_def less_Suc_eq numeral_2_eq_2)


text \<open>The volatile first store of the volatile-store procedure is deleted.\<close>

theorem store_attributes_ignored_witness:
  "same_shape volatile_store overwritten_store \<and>
   instructions volatile_store 0 ! 0 = Store 7 1 True \<and>
   dead_stores volatile_store = Some [(0, 0)] \<and>
   map_option fst (runOnFunction volatile_store) = Some True"
proof -
  have r: "map_option fst (runOnFunction overwritten_store) = Some True"
    by (simp add: runOnFunction_def overwritten_store_dead)
  have "instructions volatile_store 0 ! 0 = Store 7 1 True"
    by (simp add: volatile_store_def instructions_def)
  with store_attributes_ignored[OF volatile_same_shape] volatile_same_shape r
  show ?thesis by (simp add: overwritten_store_dead)
qed

lemma length_erase_all: "length (erase_all F te) = length F"
  by (simp add: erase_all_def)

lemma nth_erase_all: "b < length F \<Longrightarrow> erase_all F te ! b = erase_block te b (F ! b)"
  by (simp add: erase_all_def nth_enumerate_eq)

lemma successors_erase_all: "successors (erase_all F te) b = successors F b"
  by (simp add: successors_def length_erase_all nth_erase_all erase_block_def)

lemma instructions_erase_all:
  "instructions (erase_all F te) b =
     map snd (filter (\<lambda>(i, I). (b, i) \<notin> set te) (enumerate 0 (instructions F b)))"
  by (simp add: instructions_def length_erase_all nth_erase_all erase_block_def)

lemma instructions_erase_all_untouched:
  "\<forall>i. (b, i) \<notin> set te \<Longrightarrow> instructions (erase_all F te) b = instructions F b"
proof -
  assume "\<forall>i. (b, i) \<notin> set te"
  then have "filter (\<lambda>(i, I). (b, i) \<notin> set te) xs = xs" for xs :: "(nat \<times> instr) list"
    by (induction xs) auto
  then show ?thesis by (simp add: instructions_erase_all)
qed

lemma dead_stores_reachable:
  "dead_stores F = Some te \<Longrightarrow> (b, i) \<in> set te \<Longrightarrow> b \<in> reachable F"
proof -
  assume ds: "dead_stores F = Some te" and bi: "(b, i) \<in> set te"
  from dead_stores_Some[OF ds] obtain li lo where
    te: "te = mark_dead F (block_order F) lo" by blast
  from bi show ?thesis
    unfolding te by (simp add: set_mark_dead[OF block_order_distinct] block_order_set)
qed

lemma runOnFunction_Some:
  "runOnFunction F = Some (changed, F') \<Longrightarrow>
     \<exists>te. dead_stores F = Some te \<and> changed = (te \<noteq> []) \<and> F' = erase_all F te"
  by (auto simp: runOnFunction_def split: option.splits)


text \<open>
  C7. A block that no path from the entry reaches keeps its instructions, and the returned
  flag does not depend on such blocks: any procedure with the same reachable blocks gets the
  same flag and the same instructions in those blocks.
\<close>

theorem unreachable_blocks_untouched:
  "runOnFunction F = Some (changed, F') \<Longrightarrow>
     (\<forall>b. b \<notin> reachable F \<longrightarrow>
        instructions F' b = instructions F b \<and> successors F' b = successors F b) \<and>
     (\<forall>G. (\<forall>b \<in> reachable F. successors G b = successors F b \<and>
                              instructions G b = instructions F b) \<longrightarrow>
        (\<exists>G'. runOnFunction G = Some (changed, G') \<and>
              (\<forall>b \<in> reachable F. instructions G' b = instructions F' b)))"
proof -
  assume run: "runOnFunction F = Some (changed, F')"
  from runOnFunction_Some[OF run] obtain te where
    ds: "dead_stores F = Some te" and ch: "changed = (te \<noteq> [])" and F': "F' = erase_all F te"
    by blast
  have 1: "instructions F' b = instructions F b \<and> successors F' b = successors F b"
    if "b \<notin> reachable F" for b
  proof -
    from that dead_stores_reachable[OF ds] have "\<forall>i. (b, i) \<notin> set te" by blast
    then show ?thesis
      by (simp add: F' instructions_erase_all_untouched successors_erase_all)
  qed
  have 2: "\<exists>G'. runOnFunction G = Some (changed, G') \<and>
              (\<forall>b \<in> reachable F. instructions G' b = instructions F' b)"
    if G: "\<forall>b \<in> reachable F. successors G b = successors F b \<and> instructions G b = instructions F b"
    for G
  proof -
    from G have "agree_on (reachable F) F G"
      by (simp add: agree_on_def list_all2_refl same_pointer_refl)
    then have "dead_stores G = Some te" using ds by (simp add: dead_stores_cong)
    then have "runOnFunction G = Some (changed, erase_all G te)"
      by (simp add: runOnFunction_def ch)
    moreover have "\<forall>b \<in> reachable F. instructions (erase_all G te) b = instructions F' b"
      using G by (simp add: F' instructions_erase_all)
    ultimately show ?thesis by blast
  qed
  from 1 2 show ?thesis by blast
qed

lemma unreachable_store_run:
  "runOnFunction unreachable_store =
     Some (True, [\<lparr>instrs = [Store 6 1 False], succs = [1]\<rparr>,
                  \<lparr>instrs = [Load 1], succs = []\<rparr>,
                  \<lparr>instrs = [Store 0 2 False], succs = [0]\<rparr>])"
  unfolding unreachable_store_def by code_simp

lemma unreachable_store_reachable: "2 \<notin> reachable unreachable_store"
proof -
  have "block_order unreachable_store = [1, 0]"
    by (simp add: block_order_def unreachable_store_def successors_def)
  then have "reachable unreachable_store = set [1, 0]"
    by (simp only: block_order_set[symmetric])
  then show ?thesis by simp
qed


text \<open>
  On the unreachable-store procedure the pass deletes the overwritten store of the entry
  block and leaves block 2 as it was.
\<close>

theorem unreachable_blocks_untouched_witness:
  "runOnFunction unreachable_store =
     Some (True, [\<lparr>instrs = [Store 6 1 False], succs = [1]\<rparr>,
                  \<lparr>instrs = [Load 1], succs = []\<rparr>,
                  \<lparr>instrs = [Store 0 2 False], succs = [0]\<rparr>]) \<and>
   2 \<notin> reachable unreachable_store \<and>
   instructions [\<lparr>instrs = [Store 6 1 False], succs = [1]\<rparr>,
                 \<lparr>instrs = [Load 1], succs = []\<rparr>,
                 \<lparr>instrs = [Store 0 2 False], succs = [0]\<rparr>] 2 = instructions unreachable_store 2 \<and>
   instructions unreachable_store 2 = [Store 0 2 False]"
proof -
  have "instructions unreachable_store 2 = [Store 0 2 False]"
    by (simp add: unreachable_store_def instructions_def)
  with unreachable_blocks_untouched[OF unreachable_store_run] unreachable_store_reachable
    unreachable_store_run
  show ?thesis by blast
qed

section \<open>Idempotence\<close>

lemma backward_transfer_prune: "backward_transfer (prune Is X) X = backward_transfer Is X"
  by (induction Is) (auto split: instr.splits)

lemma block_marks_prune: "block_marks BB n (prune Is X) X = []"
  by (induction Is arbitrary: n) (auto simp: backward_transfer_prune split: instr.splits)

lemma backward_transfer_prune_above: "backward_transfer Is Y \<subseteq> backward_transfer (prune Is X) Y"
  by (induction Is) (auto split: instr.splits)

lemma dead_at_append_head:
  "dead_at (Ks @ I # Is) X (length Ks) \<longleftrightarrow>
     (\<exists>v ptr vol. I = Store v ptr vol \<and> ptr \<notin> backward_transfer Is X)"
  by (simp add: dead_at_def)

lemma prune_filter:
  "map snd (filter (\<lambda>(i, I). \<not> dead_at (Ks @ Is) X i) (enumerate (length Ks) Is)) = prune Is X"
proof (induction Is arbitrary: Ks)
  case Nil
  show ?case by simp
next
  case (Cons I Is)
  from Cons.IH[of "Ks @ [I]"]
  have IH: "map snd (filter (\<lambda>(i, J). \<not> dead_at (Ks @ I # Is) X i) (enumerate (Suc (length Ks)) Is))
              = prune Is X"
    by simp
  show ?case
    using IH dead_at_append_head[of Ks I Is X]
    by (cases I) simp_all
qed

lemma erase_all_Nil: "erase_all F [] = F"
proof -
  have "map (\<lambda>(b, B). erase_block [] b B) (enumerate n F) = F" for n
    by (induction F arbitrary: n) (simp_all add: erase_block_def map_snd_enumerate)
  then show ?thesis by (simp add: erase_all_def)
qed

lemma instructions_pruned:
  assumes "distinct order" "b \<in> set order"
  shows "instructions (erase_all F (mark_dead F order lo)) b = prune (instructions F b) (lo b)"
proof -
  have "(\<lambda>(i, I). (b, i) \<notin> set (mark_dead F order lo)) =
        (\<lambda>(i, I :: instr). \<not> dead_at ([] @ instructions F b) (lo b) i)"
    using assms by (simp add: set_mark_dead fun_eq_iff)
  then show ?thesis
    using prune_filter[of "[]" "instructions F b" "lo b"]
    by (simp add: instructions_erase_all)
qed

lemma visit_block_below:
  assumes pre: "\<forall>B \<in> set order. new_out_of F Pi B \<subseteq> Po B \<and> new_in_of F B (Po B) \<subseteq> Pi B"
    and BB: "BB \<in> set order"
    and below: "\<forall>b. li b \<subseteq> Pi b \<and> lo b \<subseteq> Po b"
    and v: "visit_block F BB (li, lo, ch) = (li', lo', ch')"
  shows "\<forall>b. li' b \<subseteq> Pi b \<and> lo' b \<subseteq> Po b"
proof -
  let ?no = "new_out_of F li BB"
  let ?ni = "new_in_of F BB ?no"
  from v have li': "li' = li(BB := ?ni)" and lo': "lo' = lo(BB := ?no)"
    by (simp_all add: visit_block_eq)
  have "?no \<subseteq> new_out_of F Pi BB" by (rule new_out_of_mono) (simp add: below)
  with pre BB have no: "?no \<subseteq> Po BB" by blast
  from new_in_of_mono[OF no, of F BB] pre BB have ni: "?ni \<subseteq> Pi BB" by blast
  from below no ni show ?thesis by (simp add: li' lo')
qed

lemma fold_visit_below:
  assumes pre: "\<forall>B \<in> set order. new_out_of F Pi B \<subseteq> Po B \<and> new_in_of F B (Po B) \<subseteq> Pi B"
  shows "set bs \<subseteq> set order \<Longrightarrow> \<forall>b. li b \<subseteq> Pi b \<and> lo b \<subseteq> Po b \<Longrightarrow>
         fold (visit_block F) bs (li, lo, ch) = (li', lo', ch') \<Longrightarrow>
         \<forall>b. li' b \<subseteq> Pi b \<and> lo' b \<subseteq> Po b"
proof (induction bs arbitrary: li lo ch)
  case Nil
  then show ?case by simp
next
  case (Cons BB bs)
  obtain li1 lo1 ch1 where v: "visit_block F BB (li, lo, ch) = (li1, lo1, ch1)"
    by (cases "visit_block F BB (li, lo, ch)") auto
  from Cons.prems(1) have BB: "BB \<in> set order" and bs: "set bs \<subseteq> set order" by auto
  from visit_block_below[OF pre BB Cons.prems(2) v]
  have b1: "\<forall>b. li1 b \<subseteq> Pi b \<and> lo1 b \<subseteq> Po b" .
  from Cons.prems(3) v have "fold (visit_block F) bs (li1, lo1, ch1) = (li', lo', ch')" by simp
  from Cons.IH[OF bs b1 this] show ?case .
qed

lemma solver_least:
  assumes run: "solver F order init_liveness = Some (li, lo)"
    and pre: "\<forall>B \<in> set order. new_out_of F Pi B \<subseteq> Po B \<and> new_in_of F B (Po B) \<subseteq> Pi B"
  shows "\<forall>b. li b \<subseteq> Pi b \<and> lo b \<subseteq> Po b"
proof -
  let ?I = "\<lambda>st. \<forall>b. fst st b \<subseteq> Pi b \<and> snd st b \<subseteq> Po b"
  have "?I (li, lo) \<and> solver_pass F order (li, lo) = (fst (li, lo), snd (li, lo), False)"
  proof (rule solver_invariant_rule[OF run, of ?I])
    show "?I init_liveness" by (simp add: init_liveness_def)
  next
    fix st li' lo'
    assume "?I st" "solver_pass F order st = (li', lo', True)"
    with fold_visit_below[OF pre subset_refl, of "fst st" "snd st" False li' lo' True]
    show "?I (li', lo')" by (simp add: solver_pass_def)
  qed
  then show ?thesis by simp
qed

lemma second_run_marks_nothing:
  assumes run: "solver F (block_order F) init_liveness = Some (li, lo)"
  defines "F1 \<equiv> erase_all F (mark_dead F (block_order F) lo)"
  shows "dead_stores F1 = Some []"
proof -
  let ?order = "block_order F"
  note d = block_order_distinct[of F]
  have ord1: "block_order F1 = ?order"
    by (rule block_order_cong[symmetric]) (simp add: F1_def successors_erase_all)
  have ins1: "instructions F1 b = prune (instructions F b) (lo b)" if "b \<in> set ?order" for b
    unfolding F1_def by (rule instructions_pruned[OF d that])
  have out1: "new_out_of F1 X b = new_out_of F X b" for X b
    by (simp add: new_out_of_Union F1_def successors_erase_all)
  note fp = solver_result_fixpoint[OF run]
  \<comment> \<open>the sets of the first run solve the equations of the pruned procedure\<close>
  have fp1: "\<forall>B \<in> set ?order. new_out_of F1 li B \<subseteq> lo B \<and> new_in_of F1 B (lo B) \<subseteq> li B"
    using fp by (simp add: out1 new_in_of_backward ins1 backward_transfer_prune)
  obtain li1 lo1 where run1: "solver F1 ?order init_liveness = Some (li1, lo1)"
    using solver_terminates_init[of F1 ?order] by auto
  from solver_least[OF run1 fp1] have le1: "\<forall>b. li1 b \<subseteq> li b \<and> lo1 b \<subseteq> lo b" .
  \<comment> \<open>and the sets of the second run lie above what the first procedure's equations give\<close>
  note fpb = solver_result_fixpoint[OF run1]
  have "\<forall>B \<in> set ?order. new_out_of F li1 B \<subseteq> lo1 B \<and> new_in_of F B (lo1 B) \<subseteq> li1 B"
  proof
    fix B assume B: "B \<in> set ?order"
    from fpb B have a: "new_out_of F li1 B = lo1 B"
      and b: "backward_transfer (prune (instructions F B) (lo B)) (lo1 B) = li1 B"
      by (simp_all add: out1 new_in_of_backward ins1)
    from backward_transfer_prune_above[of "instructions F B" "lo1 B" "lo B"] b
    have "new_in_of F B (lo1 B) \<subseteq> li1 B" by (simp add: new_in_of_backward)
    with a show "new_out_of F li1 B \<subseteq> lo1 B \<and> new_in_of F B (lo1 B) \<subseteq> li1 B" by simp
  qed
  from solver_least[OF run this] have le2: "\<forall>b. li b \<subseteq> li1 b \<and> lo b \<subseteq> lo1 b" .
  from le1 le2 have "lo1 = lo" by (auto simp: fun_eq_iff)
  have "concat (map (\<lambda>b. block_marks b 0 (instructions F1 b) (lo b)) ?order) = []"
    by (simp add: ins1 block_marks_prune)
  then have "mark_dead F1 ?order lo = []"
    by (simp add: mark_dead_def fold_mark_block[OF d])
  with run1 \<open>lo1 = lo\<close> show ?thesis by (simp add: dead_stores_def ord1)
qed


text \<open>
  C5. The pass returns, and run again on the procedure it leaves, it returns false and
  leaves every block's instruction sequence as it is.
\<close>

theorem pass_idempotent:
  "\<exists>changed F'. runOnFunction F = Some (changed, F') \<and> runOnFunction F' = Some (False, F')"
proof -
  obtain li lo where run: "solver F (block_order F) init_liveness = Some (li, lo)"
    using solver_terminates_init[of F "block_order F"] by auto
  let ?te = "mark_dead F (block_order F) lo"
  have "runOnFunction F = Some (?te \<noteq> [], erase_all F ?te)"
    by (simp add: runOnFunction_def dead_stores_def run)
  moreover have "runOnFunction (erase_all F ?te) = Some (False, erase_all F ?te)"
    using second_run_marks_nothing[OF run] by (simp add: runOnFunction_def erase_all_Nil)
  ultimately show ?thesis by blast
qed

end
